theory Spec2Isabelle
  imports Main "HOL-Library.Sublist" "HOL-Library.Word"
begin

section \<open>The RAM filesystem image generator (tools/ramfs-gen.py)\<close>

text \<open>
  The generator walks a directory of the build host and writes one C source file: a byte
  array per regular file, and a function that recreates the tree through the kernel's
  filesystem interface.  The embedding follows the script statement by statement.

  \<^item> A Python \<open>str\<close> is a sequence of Unicode code points, and \<open>len\<close> counts code
    points; it is modelled as a list of naturals (\<open>pystr\<close>).  ASCII text of the script
    is written \<open>py ''...''\<close>; the characters that cannot be written inside an Isabelle
    string are given by their code (10 line feed, 13 carriage return, 34 double quote,
    92 backslash).
  \<^item> A Python \<open>bytes\<close> object is a list of 8-bit words.
  \<^item> The build host is a record of the three calls the script makes on the input side
    (\<open>os.listdir\<close>, \<open>os.path.isdir\<close>, \<open>open(..., "rb").read()\<close>), of the
    success of \<open>open(..., "w")\<close>, and of the characters that the encoding of the
    output file can encode; a call that raises is \<open>None\<close>.
  \<^item> The global variables of the script are a record that every function takes and
    returns; the record also logs the host calls made, in order, the failing one
    included.
  \<^item> An uncaught exception ends the run: the functions return \<open>Inl\<close> with the exception
    and the state reached, and the run has status 1, the calls made so far and the text
    written so far (Python flushes the open file when it exits).
  \<^item> The text of the output file is the sequence of characters handed to
    \<open>outfd.write\<close>; which bytes they become is the host's encoding.
  \<^item> \<open>outfd.write(s)\<close> encodes the whole of \<open>s\<close> first and raises
    \<open>UnicodeEncodeError\<close>, writing nothing of \<open>s\<close>, when a character cannot be
    encoded.  Other failures of a write, of the flush and of the close (a full disk) are
    left out.
  \<^item> The interpreter bounds the depth of recursion.  The bound is the parameter
    \<open>limit\<close>: the number of nested calls of \<open>add_dir\<close> that fit, each with the calls it
    makes itself; the call of \<open>add_dir\<close> beyond it raises \<open>RecursionError\<close>.  So the
    walk ends on every host, also on one whose directories never end.
\<close>

subsection \<open>Strings and formatting\<close>

type_synonym pystr = "nat list"
type_synonym byte = "8 word"

abbreviation py :: "string \<Rightarrow> pystr" where
  "py s \<equiv> map of_char s"

text \<open>\<open>s.replace(old, new)\<close>: every non-overlapping occurrence of \<open>old\<close>, found from
  the left, is replaced; an empty \<open>old\<close> matches before every character and at the end.\<close>

function replace :: "pystr \<Rightarrow> pystr \<Rightarrow> pystr \<Rightarrow> pystr" where
  "replace s old new =
     (if old = [] then new @ concat (map (\<lambda>c. c # new) s)
      else if s = [] then []
      else if prefix old s then new @ replace (drop (length old) s) old new
      else hd s # replace (tl s) old new)"
  by pat_completeness auto
termination
  by (relation "measure (\<lambda>(s, old, new). length s)") auto

declare replace.simps [simp del]

definition escape :: "pystr \<Rightarrow> pystr" where
  "escape raw =
     replace (replace (replace (replace raw
       [92] [92, 92])
       [13] [92, 114])
       [10] [92, 110])
       [34] [92, 34]"

text \<open>\<open>"{}".format(n)\<close> for a non-negative integer: its decimal digits.\<close>

fun show_nat :: "nat \<Rightarrow> pystr" where
  "show_nat n = (if n < 10 then [48 + n] else show_nat (n div 10) @ [48 + n mod 10])"

declare show_nat.simps [simp del]

text \<open>\<open>"{:02x}".format(n)\<close>: lower-case hexadecimal digits, padded with zeros to width 2.\<close>

definition hex_digit :: "nat \<Rightarrow> nat" where
  "hex_digit d = (if d < 10 then 48 + d else 87 + d)"

fun show_hex :: "nat \<Rightarrow> pystr" where
  "show_hex n = (if n < 16 then [hex_digit n] else show_hex (n div 16) @ [hex_digit (n mod 16)])"

declare show_hex.simps [simp del]

definition fmt_02x :: "nat \<Rightarrow> pystr" where
  "fmt_02x n = replicate (2 - length (show_hex n)) 48 @ show_hex n"

subsection \<open>The build host and the generator state\<close>

datatype error = OSError pystr | RecursionError | UnicodeEncodeError

datatype event =
    OpenWrite pystr
  | CloseWrite pystr
  | ListDir pystr
  | IsDir pystr
  | OpenRead pystr
  | ReadAll pystr
  | CloseRead pystr

record host =
  listdir :: "pystr \<Rightarrow> pystr list option"
  isdir :: "pystr \<Rightarrow> bool"
  read_rb :: "pystr \<Rightarrow> byte list option"
  open_w :: "pystr \<Rightarrow> bool"
  encodable :: "nat \<Rightarrow> bool"

record gen_state =
  roms :: pystr
  dirs :: pystr
  files :: pystr
  file_count :: nat
  trace :: "event list"

definition init_state :: "event list \<Rightarrow> gen_state" where
  "init_state tr = \<lparr>roms = [], dirs = [], files = [], file_count = 0, trace = tr\<rparr>"

subsection \<open>The text fragments\<close>

text \<open>Each definition is one format string of the script with its arguments.\<close>

definition rom_head :: "pystr \<Rightarrow> pystr" where
  "rom_head name = py ''uint8_t const '' @ name @ py ''[] = {'' @ [10] @ py ''    ''"

definition rom_byte :: "byte \<Rightarrow> pystr" where
  "rom_byte b = py ''0x'' @ fmt_02x (unat b) @ py '',''"

definition rom_tail :: "pystr" where
  "rom_tail = [10] @ py ''};'' @ [10]"

definition rom_len :: "pystr \<Rightarrow> nat \<Rightarrow> pystr" where
  "rom_len name n = py ''size_t const '' @ name @ py ''_len = '' @ show_nat n @ py '';'' @ [10]"

definition open_line :: "pystr \<Rightarrow> nat \<Rightarrow> pystr" where
  "open_line lit n =
     py ''    fd = fs_open(FILE_NONE, '' @ [34] @ lit @ [34] @ py '', '' @ show_nat n
       @ py '', FS_O_CREATE | FS_O_WRITE_ONLY).file;'' @ [10]"

definition assert_open_line :: "pystr" where
  "assert_open_line = py ''    assert_always(fd.metadata);'' @ [10]"

definition write_line :: "pystr \<Rightarrow> pystr" where
  "write_line name =
     py ''    len = fs_write(fd, '' @ name @ py '', '' @ name @ py ''_len);'' @ [10]"

definition assert_len_line :: "pystr \<Rightarrow> pystr" where
  "assert_len_line name = py ''    assert_always(len == '' @ name @ py ''_len);'' @ [10]"

definition drop_line :: "pystr" where
  "drop_line = py ''    fs_file_drop(fd);'' @ [10]"

definition mkdir_line :: "pystr \<Rightarrow> nat \<Rightarrow> pystr" where
  "mkdir_line lit n =
     py ''    assert_dev_keep(fs_make_file(FILE_NONE, '' @ [34] @ lit @ [34] @ py '', ''
       @ show_nat n @ py '', (make_file_spec_t){.type = NODE_TYPE_DIRECTORY}) >= 0);'' @ [10]"

text \<open>The writes before the walk, one element for each \<open>outfd.write\<close>, and those
  around the two buffers after it.\<close>

definition header_lines :: "pystr list" where
  "header_lines =
     [py ''// WARNING: This is a generated file, do not edit it!'' @ [10],
      py ''// clang-format off'' @ [10],
      py ''// NOLINTBEGIN'' @ [10],
      py ''#include <stdint.h>'' @ [10],
      py ''#include <stddef.h>'' @ [10],
      py ''#include '' @ [34] @ py ''filesystem.h'' @ [34] @ [10],
      py ''#include '' @ [34] @ py ''assertions.h'' @ [34] @ [10]]"

definition func_head_lines :: "pystr \<Rightarrow> pystr list" where
  "func_head_lines name =
     [py ''void '' @ name @ py ''() {'' @ [10],
      py ''    file_t fd;'' @ [10],
      py ''    errno64_t len;'' @ [10]]"

definition func_tail_lines :: "pystr list" where
  "func_tail_lines =
     [py ''    (void)len;'' @ [10], py ''}'' @ [10], py ''// NOLINTEND'' @ [10]]"

definition usage :: "pystr" where
  "usage = py ''Usage: ramfs-gen.py [indir] [outfile] [name]'' @ [10]"

subsection \<open>add_rom and add_dir\<close>

definition log :: "event list \<Rightarrow> gen_state \<Rightarrow> gen_state" where
  "log es st = st\<lparr>trace := trace st @ es\<rparr>"

text \<open>What \<open>add_rom\<close> appends to \<open>roms\<close> and to \<open>files\<close>.\<close>

definition rom_text :: "pystr \<Rightarrow> byte list \<Rightarrow> pystr" where
  "rom_text name data =
     rom_head name @ concat (map rom_byte data) @ rom_tail @ rom_len name (length data)"

definition file_text :: "pystr \<Rightarrow> pystr \<Rightarrow> pystr" where
  "file_text virtpath name =
     open_line (escape virtpath) (length virtpath) @ assert_open_line @ write_line name
       @ assert_len_line name @ drop_line"

definition add_rom ::
  "host \<Rightarrow> pystr \<Rightarrow> pystr \<Rightarrow> pystr \<Rightarrow> gen_state \<Rightarrow> error \<times> gen_state + gen_state"
where
  "add_rom h path virtpath name st =
     (case read_rb h path of
        None \<Rightarrow> Inl (OSError path, log [OpenRead path] st)
      | Some data \<Rightarrow>
          Inr (log [OpenRead path, ReadAll path, CloseRead path]
            (st\<lparr>roms := roms st @ rom_text name data,
                files := files st @ file_text virtpath name\<rparr>)))"

text \<open>\<open>add_dir\<close> lists the directory and \<open>add_entries\<close> is its \<open>for\<close> loop over the
  names.  The blob name is formatted from \<open>file_count\<close> before the call of \<open>add_rom\<close>
  and the counter is incremented after it.  The first argument is what is left of the
  recursion limit.\<close>

fun add_dir ::
    "nat \<Rightarrow> host \<Rightarrow> pystr \<Rightarrow> pystr \<Rightarrow> gen_state \<Rightarrow> error \<times> gen_state + gen_state"
  and add_entries ::
    "nat \<Rightarrow> host \<Rightarrow> pystr \<Rightarrow> pystr \<Rightarrow> pystr list \<Rightarrow> gen_state
       \<Rightarrow> error \<times> gen_state + gen_state"
where
  "add_dir 0 h path virtpath st = Inl (RecursionError, st)"
| "add_dir (Suc k) h path virtpath st =
     (case listdir h path of
        None \<Rightarrow> Inl (OSError path, log [ListDir path] st)
      | Some names \<Rightarrow> add_entries k h path virtpath names (log [ListDir path] st))"
| "add_entries k h path virtpath [] st = Inr st"
| "add_entries k h path virtpath (filename # rest) st =
     (if isdir h (path @ py ''/'' @ filename) then
        (case add_dir k h (path @ py ''/'' @ filename) (virtpath @ py ''/'' @ filename)
                (log [IsDir (path @ py ''/'' @ filename)]
                  (st\<lparr>dirs := dirs st
                     @ mkdir_line (escape (virtpath @ py ''/'' @ filename))
                         (length virtpath + 1 + length filename)\<rparr>)) of
           Inl x \<Rightarrow> Inl x
         | Inr st' \<Rightarrow> add_entries k h path virtpath rest st')
      else
        (case add_rom h (path @ py ''/'' @ filename) (virtpath @ py ''/'' @ filename)
                (py ''filerom_'' @ show_nat (file_count st))
                (log [IsDir (path @ py ''/'' @ filename)] st) of
           Inl x \<Rightarrow> Inl x
         | Inr st' \<Rightarrow>
             add_entries k h path virtpath rest (st'\<lparr>file_count := file_count st' + 1\<rparr>)))"

subsection \<open>The script's top level\<close>

text \<open>What one run of the script does: the exit status, the uncaught exception if there
  is one (Python then prints a traceback and exits with status 1), the text printed on
  the standard output, the host calls made, and the text written to the output file.\<close>

record run =
  exit_code :: nat
  raised :: "error option"
  stdout :: pystr
  calls :: "event list"
  out_text :: pystr

definition crashed :: "error \<Rightarrow> event list \<Rightarrow> pystr \<Rightarrow> run" where
  "crashed e tr out = \<lparr>exit_code = 1, raised = Some e, stdout = [], calls = tr, out_text = out\<rparr>"

text \<open>A sequence of \<open>outfd.write\<close> calls after the text \<open>out\<close> already written; \<open>ok\<close>
  tells the characters the encoding of the file can encode.\<close>

fun write_all :: "(nat \<Rightarrow> bool) \<Rightarrow> pystr list \<Rightarrow> pystr \<Rightarrow> error \<times> pystr + pystr" where
  "write_all ok [] out = Inr out"
| "write_all ok (s # ss) out =
     (if list_all ok s then write_all ok ss (out @ s) else Inl (UnicodeEncodeError, out))"

definition main :: "nat \<Rightarrow> host \<Rightarrow> pystr list \<Rightarrow> run" where
  "main limit h argv =
     (if length argv \<noteq> 4 then
        \<lparr>exit_code = 1, raised = None, stdout = usage, calls = [], out_text = []\<rparr>
      else if \<not> open_w h (argv ! 2) then
        crashed (OSError (argv ! 2)) [OpenWrite (argv ! 2)] []
      else
        (case write_all (encodable h) header_lines [] of
           Inl (e, out) \<Rightarrow> crashed e [OpenWrite (argv ! 2)] out
         | Inr out \<Rightarrow>
             (case add_dir limit h (argv ! 1) [] (init_state [OpenWrite (argv ! 2)]) of
                Inl (e, st) \<Rightarrow> crashed e (trace st) out
              | Inr st \<Rightarrow>
                  (case write_all (encodable h)
                          ([roms st] @ func_head_lines (argv ! 3) @ [dirs st, files st]
                             @ func_tail_lines) out of
                     Inl (e, out') \<Rightarrow> crashed e (trace st) out'
                   | Inr out' \<Rightarrow>
                       \<lparr>exit_code = 0, raised = None, stdout = [],
                        calls = trace st @ [CloseWrite (argv ! 2)], out_text = out'\<rparr>))))"

subsection \<open>Directory trees and the discovery order\<close>

text \<open>
  A finite directory tree as the script sees it through the host calls: the entries of
  a directory in enumeration order, each a regular file (name, bytes) or a directory
  (name, entries).  \<open>presents h path es\<close> says that the host shows the entries \<open>es\<close>
  under \<open>path\<close>: \<open>os.listdir\<close> returns their names in this order, \<open>os.path.isdir\<close>
  is true exactly on the \<open>Dir\<close> entries, and reading a \<open>File\<close> entry returns its bytes.
\<close>

datatype node = File pystr "byte list" | Dir pystr "node list"

fun name_of :: "node \<Rightarrow> pystr" where
  "name_of (File n d) = n"
| "name_of (Dir n cs) = n"

fun presents :: "host \<Rightarrow> pystr \<Rightarrow> node list \<Rightarrow> bool"
  and presents_each :: "host \<Rightarrow> pystr \<Rightarrow> node list \<Rightarrow> bool"
where
  "presents h path es = (listdir h path = Some (map name_of es) \<and> presents_each h path es)"
| "presents_each h path [] = True"
| "presents_each h path (File n d # es) =
     (\<not> isdir h (path @ py ''/'' @ n) \<and> read_rb h (path @ py ''/'' @ n) = Some d
      \<and> presents_each h path es)"
| "presents_each h path (Dir n cs # es) =
     (isdir h (path @ py ''/'' @ n) \<and> presents h (path @ py ''/'' @ n) cs
      \<and> presents_each h path es)"

text \<open>The nesting depth of directories below a list of entries.\<close>

fun height :: "node list \<Rightarrow> nat" where
  "height [] = 0"
| "height (File n d # es) = height es"
| "height (Dir n cs # es) = max (Suc (height cs)) (height es)"

text \<open>The entries in the order the walk discovers them (a directory, then everything
  below it, then its later siblings), each with its virtual path.\<close>

datatype item = DirItem pystr | FileItem pystr "byte list"

fun walk :: "pystr \<Rightarrow> node list \<Rightarrow> item list" where
  "walk vp [] = []"
| "walk vp (File n d # es) = FileItem (vp @ py ''/'' @ n) d # walk vp es"
| "walk vp (Dir n cs # es) =
     DirItem (vp @ py ''/'' @ n) # walk (vp @ py ''/'' @ n) cs @ walk vp es"

fun dir_items :: "item list \<Rightarrow> pystr list" where
  "dir_items [] = []"
| "dir_items (DirItem p # xs) = p # dir_items xs"
| "dir_items (FileItem p d # xs) = dir_items xs"

fun file_items :: "item list \<Rightarrow> (pystr \<times> byte list) list" where
  "file_items [] = []"
| "file_items (DirItem p # xs) = file_items xs"
| "file_items (FileItem p d # xs) = (p, d) # file_items xs"

text \<open>The host calls of the walk, in order.\<close>

fun walk_calls :: "pystr \<Rightarrow> node list \<Rightarrow> event list" where
  "walk_calls path [] = []"
| "walk_calls path (File n d # es) =
     [IsDir (path @ py ''/'' @ n), OpenRead (path @ py ''/'' @ n),
      ReadAll (path @ py ''/'' @ n), CloseRead (path @ py ''/'' @ n)] @ walk_calls path es"
| "walk_calls path (Dir n cs # es) =
     [IsDir (path @ py ''/'' @ n), ListDir (path @ py ''/'' @ n)]
       @ walk_calls (path @ py ''/'' @ n) cs @ walk_calls path es"

text \<open>The three text buffers as functions of the discovered items: blob \<open>k\<close> is named
  \<open>filerom_k\<close>, counting the files from \<open>k0\<close>.\<close>

definition blob_name :: "nat \<Rightarrow> pystr" where
  "blob_name k = py ''filerom_'' @ show_nat k"

fun roms_of :: "nat \<Rightarrow> (pystr \<times> byte list) list \<Rightarrow> pystr" where
  "roms_of k [] = []"
| "roms_of k ((p, d) # fs) = rom_text (blob_name k) d @ roms_of (Suc k) fs"

fun files_of :: "nat \<Rightarrow> (pystr \<times> byte list) list \<Rightarrow> pystr" where
  "files_of k [] = []"
| "files_of k ((p, d) # fs) = file_text p (blob_name k) @ files_of (Suc k) fs"

fun dirs_of :: "pystr list \<Rightarrow> pystr" where
  "dirs_of [] = []"
| "dirs_of (p # ps) = mkdir_line (escape p) (length p) @ dirs_of ps"

definition emitted :: "pystr \<Rightarrow> pystr \<Rightarrow> node list \<Rightarrow> gen_state \<Rightarrow> gen_state" where
  "emitted path vp es st =
     \<lparr>roms = roms st @ roms_of (file_count st) (file_items (walk vp es)),
      dirs = dirs st @ dirs_of (dir_items (walk vp es)),
      files = files st @ files_of (file_count st) (file_items (walk vp es)),
      file_count = file_count st + length (file_items (walk vp es)),
      trace = trace st @ walk_calls path es\<rparr>"

subsection \<open>Reading a string literal\<close>

text \<open>
  The table of replacements that the specification gives for \<open>escape\<close>, character by
  character.
\<close>

definition escape_char_spec :: "nat \<Rightarrow> pystr" where
  "escape_char_spec c =
     (if c = 92 then [92, 92]
      else if c = 13 then [92, 114]
      else if c = 10 then [92, 110]
      else if c = 34 then [92, 34]
      else [c])"

text \<open>
  How a C compiler reads the body of a string literal (ISO C, 6.4.4.4 and 6.4.5): a
  backslash starts an escape sequence, and a double quote or a line feed cannot stand
  in the body unescaped.  The simple escape sequences are decoded; an octal, hexadecimal
  or universal-character escape, and a backslash before anything else, is \<open>None\<close>.
\<close>

definition simple_escape :: "nat \<Rightarrow> nat option" where
  "simple_escape e =
     (if e = 110 then Some 10 else if e = 114 then Some 13 else if e = 116 then Some 9
      else if e = 92 then Some 92 else if e = 34 then Some 34 else if e = 39 then Some 39
      else if e = 63 then Some 63 else if e = 97 then Some 7 else if e = 98 then Some 8
      else if e = 102 then Some 12 else if e = 118 then Some 11 else None)"

fun c_unescape :: "nat list \<Rightarrow> nat list option" where
  "c_unescape [] = Some []"
| "c_unescape [c] = (if c = 92 \<or> c = 34 \<or> c = 10 then None else Some [c])"
| "c_unescape (c # e # rest) =
     (if c = 92 then
        (case simple_escape e of
           None \<Rightarrow> None
         | Some v \<Rightarrow> map_option ((#) v) (c_unescape rest))
      else if c = 34 \<or> c = 10 then None
      else map_option ((#) c) (c_unescape (e # rest)))"

subsection \<open>Reading the numbers\<close>

text \<open>
  How a C compiler reads the integer constants of the generated file (ISO C, 6.4.4.1):
  a decimal constant is a digit other than 0 followed by digits, and a lone 0 is zero;
  a hexadecimal constant is \<open>0x\<close> or \<open>0X\<close> followed by hexadecimal digits.
\<close>

definition digit_value :: "nat \<Rightarrow> nat option" where
  "digit_value c = (if 48 \<le> c \<and> c \<le> 57 then Some (c - 48) else None)"

fun read_digits :: "nat \<Rightarrow> pystr \<Rightarrow> nat option" where
  "read_digits acc [] = Some acc"
| "read_digits acc (c # cs) =
     (case digit_value c of None \<Rightarrow> None | Some d \<Rightarrow> read_digits (10 * acc + d) cs)"

definition read_nat :: "pystr \<Rightarrow> nat option" where
  "read_nat s =
     (if s = [48] then Some 0 else if s = [] \<or> hd s = 48 then None else read_digits 0 s)"

definition hex_value :: "nat \<Rightarrow> nat option" where
  "hex_value c =
     (if 48 \<le> c \<and> c \<le> 57 then Some (c - 48)
      else if 97 \<le> c \<and> c \<le> 102 then Some (c - 87)
      else if 65 \<le> c \<and> c \<le> 70 then Some (c - 55)
      else None)"

fun read_hex_digits :: "nat \<Rightarrow> pystr \<Rightarrow> nat option" where
  "read_hex_digits acc [] = Some acc"
| "read_hex_digits acc (c # cs) =
     (case hex_value c of None \<Rightarrow> None | Some d \<Rightarrow> read_hex_digits (16 * acc + d) cs)"

fun read_hex :: "pystr \<Rightarrow> nat option" where
  "read_hex (z # x # d # ds) =
     (if z = 48 \<and> (x = 120 \<or> x = 88) then read_hex_digits 0 (d # ds) else None)"
| "read_hex s = None"

subsection \<open>The text of the generated file, spelled out\<close>

text \<open>
  The text that the properties below speak of, written out in full: the fixed lines
  before the arrays; the array and the length constant of blob \<open>k\<close> with the bytes \<open>d\<close>;
  the opening of the function \<open>name\<close>; the creation of the directory \<open>p\<close>; the five
  lines that write the file \<open>p\<close> from blob \<open>k\<close>; and the closing lines.  These are
  abbreviations, so a statement that uses one contains the text itself.
\<close>

abbreviation head_text :: pystr where
  "head_text \<equiv>
     py ''// WARNING: This is a generated file, do not edit it!'' @ [10]
     @ py ''// clang-format off'' @ [10]
     @ py ''// NOLINTBEGIN'' @ [10]
     @ py ''#include <stdint.h>'' @ [10]
     @ py ''#include <stddef.h>'' @ [10]
     @ py ''#include '' @ [34] @ py ''filesystem.h'' @ [34] @ [10]
     @ py ''#include '' @ [34] @ py ''assertions.h'' @ [34] @ [10]"

abbreviation blob_text :: "nat \<Rightarrow> byte list \<Rightarrow> pystr" where
  "blob_text k d \<equiv>
     py ''uint8_t const filerom_'' @ show_nat k @ py ''[] = {'' @ [10]
     @ py ''    '' @ concat (map (\<lambda>b. py ''0x'' @ fmt_02x (unat b) @ py '','') d) @ [10]
     @ py ''};'' @ [10]
     @ py ''size_t const filerom_'' @ show_nat k @ py ''_len = '' @ show_nat (length d)
     @ py '';'' @ [10]"

abbreviation func_open_text :: "pystr \<Rightarrow> pystr" where
  "func_open_text name \<equiv>
     py ''void '' @ name @ py ''() {'' @ [10]
     @ py ''    file_t fd;'' @ [10]
     @ py ''    errno64_t len;'' @ [10]"

abbreviation make_dir_text :: "pystr \<Rightarrow> pystr" where
  "make_dir_text p \<equiv>
     py ''    assert_dev_keep(fs_make_file(FILE_NONE, '' @ [34] @ escape p @ [34] @ py '', ''
     @ show_nat (length p)
     @ py '', (make_file_spec_t){.type = NODE_TYPE_DIRECTORY}) >= 0);'' @ [10]"

abbreviation write_file_text :: "pystr \<Rightarrow> nat \<Rightarrow> pystr" where
  "write_file_text p k \<equiv>
     py ''    fd = fs_open(FILE_NONE, '' @ [34] @ escape p @ [34] @ py '', ''
     @ show_nat (length p) @ py '', FS_O_CREATE | FS_O_WRITE_ONLY).file;'' @ [10]
     @ py ''    assert_always(fd.metadata);'' @ [10]
     @ py ''    len = fs_write(fd, filerom_'' @ show_nat k @ py '', filerom_'' @ show_nat k
     @ py ''_len);'' @ [10]
     @ py ''    assert_always(len == filerom_'' @ show_nat k @ py ''_len);'' @ [10]
     @ py ''    fs_file_drop(fd);'' @ [10]"

abbreviation func_close_text :: pystr where
  "func_close_text \<equiv>
     py ''    (void)len;'' @ [10] @ py ''}'' @ [10] @ py ''// NOLINTEND'' @ [10]"

abbreviation generated_text :: "pystr \<Rightarrow> item list \<Rightarrow> pystr" where
  "generated_text name w \<equiv>
     head_text
     @ concat (map (\<lambda>(k, p, d). blob_text k d) (enumerate 0 (file_items w)))
     @ func_open_text name
     @ concat (map make_dir_text (dir_items w))
     @ concat (map (\<lambda>(k, p, d). write_file_text p k) (enumerate 0 (file_items w)))
     @ func_close_text"

subsection \<open>A run on a tree\<close>

text \<open>The writes after the walk of a tree, the whole output text for a tree and an
  entry-function name, the record of a run that reaches the end of the script, and the
  run on a tree whatever the encoding can encode.\<close>

definition tail_chunks :: "pystr \<Rightarrow> node list \<Rightarrow> pystr list" where
  "tail_chunks name es =
     [roms_of 0 (file_items (walk [] es))] @ func_head_lines name
     @ [dirs_of (dir_items (walk [] es)), files_of 0 (file_items (walk [] es))]
     @ func_tail_lines"

definition assemble :: "pystr \<Rightarrow> node list \<Rightarrow> pystr" where
  "assemble name es = concat header_lines @ concat (tail_chunks name es)"

definition finished :: "pystr list \<Rightarrow> node list \<Rightarrow> run" where
  "finished argv es =
     \<lparr>exit_code = 0, raised = None, stdout = [],
      calls = OpenWrite (argv ! 2) # ListDir (argv ! 1) # walk_calls (argv ! 1) es
                @ [CloseWrite (argv ! 2)],
      out_text = assemble (argv ! 3) es\<rparr>"

definition tree_run :: "(nat \<Rightarrow> bool) \<Rightarrow> pystr list \<Rightarrow> node list \<Rightarrow> run" where
  "tree_run ok argv es =
     (case write_all ok header_lines [] of
        Inl (e, out) \<Rightarrow> crashed e [OpenWrite (argv ! 2)] out
      | Inr out \<Rightarrow>
          (case write_all ok (tail_chunks (argv ! 3) es) out of
             Inl (e, out') \<Rightarrow>
               crashed e (OpenWrite (argv ! 2) # ListDir (argv ! 1) # walk_calls (argv ! 1) es)
                 out'
           | Inr out' \<Rightarrow>
               \<lparr>exit_code = 0, raised = None, stdout = [],
                calls = OpenWrite (argv ! 2) # ListDir (argv ! 1) # walk_calls (argv ! 1) es
                          @ [CloseWrite (argv ! 2)],
                out_text = out'\<rparr>))"

text \<open>The names of the entries of a tree, and what a run on the tree needs of the output
  encoding to write all its text: the ASCII characters, the characters of the
  entry-function name and those of the entry names.\<close>

fun entry_names :: "node list \<Rightarrow> pystr list" where
  "entry_names [] = []"
| "entry_names (File n d # es) = n # entry_names es"
| "entry_names (Dir n cs # es) = n # entry_names cs @ entry_names es"

definition writable :: "host \<Rightarrow> pystr \<Rightarrow> node list \<Rightarrow> bool" where
  "writable h name es =
     (list_all (encodable h) [0..<128] \<and> list_all (encodable h) name
      \<and> list_all (list_all (encodable h)) (entry_names es))"

subsection \<open>The scenario of the specification\<close>

text \<open>
  A host whose directory \<open>root\<close> holds the file \<open>a.txt\<close> (bytes 68 69) and the
  directory \<open>sub\<close>, enumerated in this order, and \<open>sub\<close> holds the empty file
  \<open>b.bin\<close>; every other path does not exist.
\<close>

text \<open>The characters UTF-8 can encode: the code points but the surrogates.\<close>

definition utf8_encodable :: "nat \<Rightarrow> bool" where
  "utf8_encodable c = (c < 55296 \<or> (57343 < c \<and> c < 1114112))"

definition example_host :: host where
  "example_host =
     \<lparr>listdir = (\<lambda>p. if p = py ''root'' then Some [py ''a.txt'', py ''sub'']
                     else if p = py ''root/sub'' then Some [py ''b.bin''] else None),
      isdir = (\<lambda>p. p = py ''root'' \<or> p = py ''root/sub''),
      read_rb = (\<lambda>p. if p = py ''root/a.txt'' then Some [0x68, 0x69]
                     else if p = py ''root/sub/b.bin'' then Some [] else None),
      open_w = (\<lambda>p. p = py ''out.c''),
      encodable = utf8_encodable\<rparr>"

definition example_argv :: "pystr list" where
  "example_argv = [py ''ramfs-gen.py'', py ''root'', py ''out.c'', py ''populate'']"

definition example_tree :: "node list" where
  "example_tree = [File (py ''a.txt'') [0x68, 0x69], Dir (py ''sub'') [File (py ''b.bin'') []]]"

text \<open>The lines of the file the script is expected to write for it.\<close>

definition example_output :: pystr where
  "example_output = concat (map (\<lambda>l. l @ [10])
     [py ''// WARNING: This is a generated file, do not edit it!'',
      py ''// clang-format off'',
      py ''// NOLINTBEGIN'',
      py ''#include <stdint.h>'',
      py ''#include <stddef.h>'',
      py ''#include '' @ [34] @ py ''filesystem.h'' @ [34],
      py ''#include '' @ [34] @ py ''assertions.h'' @ [34],
      py ''uint8_t const filerom_0[] = {'',
      py ''    0x68,0x69,'',
      py ''};'',
      py ''size_t const filerom_0_len = 2;'',
      py ''uint8_t const filerom_1[] = {'',
      py ''    '',
      py ''};'',
      py ''size_t const filerom_1_len = 0;'',
      py ''void populate() {'',
      py ''    file_t fd;'',
      py ''    errno64_t len;'',
      py ''    assert_dev_keep(fs_make_file(FILE_NONE, '' @ [34] @ py ''/sub'' @ [34] @ py '', 4, (make_file_spec_t){.type = NODE_TYPE_DIRECTORY}) >= 0);'',
      py ''    fd = fs_open(FILE_NONE, '' @ [34] @ py ''/a.txt'' @ [34] @ py '', 6, FS_O_CREATE | FS_O_WRITE_ONLY).file;'',
      py ''    assert_always(fd.metadata);'',
      py ''    len = fs_write(fd, filerom_0, filerom_0_len);'',
      py ''    assert_always(len == filerom_0_len);'',
      py ''    fs_file_drop(fd);'',
      py ''    fd = fs_open(FILE_NONE, '' @ [34] @ py ''/sub/b.bin'' @ [34] @ py '', 10, FS_O_CREATE | FS_O_WRITE_ONLY).file;'',
      py ''    assert_always(fd.metadata);'',
      py ''    len = fs_write(fd, filerom_1, filerom_1_len);'',
      py ''    assert_always(len == filerom_1_len);'',
      py ''    fs_file_drop(fd);'',
      py ''    (void)len;'',
      py ''}'',
      py ''// NOLINTEND''])"

text \<open>The same directory on a host that enumerates \<open>sub\<close> before \<open>a.txt\<close>, and the
  lines of the file the script writes there.\<close>

definition reversed_host :: host where
  "reversed_host =
     \<lparr>listdir = (\<lambda>p. if p = py ''root'' then Some [py ''sub'', py ''a.txt'']
                     else if p = py ''root/sub'' then Some [py ''b.bin''] else None),
      isdir = (\<lambda>p. p = py ''root'' \<or> p = py ''root/sub''),
      read_rb = (\<lambda>p. if p = py ''root/a.txt'' then Some [0x68, 0x69]
                     else if p = py ''root/sub/b.bin'' then Some [] else None),
      open_w = (\<lambda>p. p = py ''out.c''),
      encodable = utf8_encodable\<rparr>"

definition reversed_tree :: "node list" where
  "reversed_tree = [Dir (py ''sub'') [File (py ''b.bin'') []], File (py ''a.txt'') [0x68, 0x69]]"

definition reversed_output :: pystr where
  "reversed_output = concat (map (\<lambda>l. l @ [10])
     [py ''// WARNING: This is a generated file, do not edit it!'',
      py ''// clang-format off'',
      py ''// NOLINTBEGIN'',
      py ''#include <stdint.h>'',
      py ''#include <stddef.h>'',
      py ''#include '' @ [34] @ py ''filesystem.h'' @ [34],
      py ''#include '' @ [34] @ py ''assertions.h'' @ [34],
      py ''uint8_t const filerom_0[] = {'',
      py ''    '',
      py ''};'',
      py ''size_t const filerom_0_len = 0;'',
      py ''uint8_t const filerom_1[] = {'',
      py ''    0x68,0x69,'',
      py ''};'',
      py ''size_t const filerom_1_len = 2;'',
      py ''void populate() {'',
      py ''    file_t fd;'',
      py ''    errno64_t len;'',
      py ''    assert_dev_keep(fs_make_file(FILE_NONE, '' @ [34] @ py ''/sub'' @ [34] @ py '', 4, (make_file_spec_t){.type = NODE_TYPE_DIRECTORY}) >= 0);'',
      py ''    fd = fs_open(FILE_NONE, '' @ [34] @ py ''/sub/b.bin'' @ [34] @ py '', 10, FS_O_CREATE | FS_O_WRITE_ONLY).file;'',
      py ''    assert_always(fd.metadata);'',
      py ''    len = fs_write(fd, filerom_0, filerom_0_len);'',
      py ''    assert_always(len == filerom_0_len);'',
      py ''    fs_file_drop(fd);'',
      py ''    fd = fs_open(FILE_NONE, '' @ [34] @ py ''/a.txt'' @ [34] @ py '', 6, FS_O_CREATE | FS_O_WRITE_ONLY).file;'',
      py ''    assert_always(fd.metadata);'',
      py ''    len = fs_write(fd, filerom_1, filerom_1_len);'',
      py ''    assert_always(len == filerom_1_len);'',
      py ''    fs_file_drop(fd);'',
      py ''    (void)len;'',
      py ''}'',
      py ''// NOLINTEND''])"

text \<open>The number of regular files in a tree.\<close>

fun count_files :: "node list \<Rightarrow> nat" where
  "count_files [] = 0"
| "count_files (File n d # es) = Suc (count_files es)"
| "count_files (Dir n cs # es) = count_files cs + count_files es"

text \<open>The host of the scenario at another time: a file has appeared beside the input
  directory, and nothing has changed below it.\<close>

definition later_host :: host where
  "later_host =
     example_host\<lparr>read_rb := (\<lambda>p. if p = py ''notes.txt'' then Some [0x21]
                                  else read_rb example_host p)\<rparr>"

subsection \<open>The operations of the entry function\<close>

text \<open>
  The body of the generated function as a list of operations: the creation of a
  directory (one \<open>fs_make_file\<close> line) and the writing of a file from blob \<open>k\<close> (the
  five lines from \<open>fs_open\<close> to \<open>fs_file_drop\<close>).  \<open>render_op\<close> is the text the script
  emits for an operation, and \<open>body_ops\<close> are the operations for a tree in the order of
  the body: the \<open>dirs\<close> buffer, then the \<open>files\<close> buffer.
\<close>

datatype op = MkDir pystr | WriteFile pystr nat

fun op_path :: "op \<Rightarrow> pystr" where
  "op_path (MkDir p) = p"
| "op_path (WriteFile p k) = p"

fun render_op :: "op \<Rightarrow> pystr" where
  "render_op (MkDir p) = mkdir_line (escape p) (length p)"
| "render_op (WriteFile p k) = file_text p (blob_name k)"

definition body_ops :: "node list \<Rightarrow> op list" where
  "body_ops es =
     map MkDir (dir_items (walk [] es))
     @ map (\<lambda>(k, p, d). WriteFile p k) (enumerate 0 (file_items (walk [] es)))"

fun item_path :: "item \<Rightarrow> pystr" where
  "item_path (DirItem p) = p"
| "item_path (FileItem p d) = p"

fun is_dir_item :: "item \<Rightarrow> bool" where
  "is_dir_item (DirItem p) = True"
| "is_dir_item (FileItem p d) = False"

text \<open>\<open>a\<close> is the virtual path of an ancestor directory of \<open>p\<close>, the root (the empty
  path) excluded.\<close>

definition ancestor :: "pystr \<Rightarrow> pystr \<Rightarrow> bool" where
  "ancestor a p = (a \<noteq> [] \<and> prefix (a @ py ''/'') p)"

text \<open>No entry name of the tree contains a slash (no name of a directory entry does).\<close>

fun slash_free :: "node list \<Rightarrow> bool" where
  "slash_free [] = True"
| "slash_free (File n d # es) = (47 \<notin> set n \<and> slash_free es)"
| "slash_free (Dir n cs # es) = (47 \<notin> set n \<and> slash_free cs \<and> slash_free es)"

subsection \<open>Host calls and the entries visited\<close>

text \<open>The path a host call is made on, and the calls that only read the host.\<close>

fun event_path :: "event \<Rightarrow> pystr" where
  "event_path (OpenWrite p) = p"
| "event_path (CloseWrite p) = p"
| "event_path (ListDir p) = p"
| "event_path (IsDir p) = p"
| "event_path (OpenRead p) = p"
| "event_path (ReadAll p) = p"
| "event_path (CloseRead p) = p"

fun read_only :: "event \<Rightarrow> bool" where
  "read_only (OpenWrite p) = False"
| "read_only (CloseWrite p) = False"
| "read_only (ListDir p) = True"
| "read_only (IsDir p) = True"
| "read_only (OpenRead p) = True"
| "read_only (ReadAll p) = True"
| "read_only (CloseRead p) = True"

text \<open>The entries of a tree in discovery order, each with its path on the host.\<close>

fun visited :: "pystr \<Rightarrow> node list \<Rightarrow> (pystr \<times> node) list" where
  "visited path [] = []"
| "visited path (File n d # es) = (path @ py ''/'' @ n, File n d) # visited path es"
| "visited path (Dir n cs # es) =
     (path @ py ''/'' @ n, Dir n cs) # visited (path @ py ''/'' @ n) cs @ visited path es"

fun count_dirs :: "node list \<Rightarrow> nat" where
  "count_dirs [] = 0"
| "count_dirs (File n d # es) = count_dirs es"
| "count_dirs (Dir n cs # es) = Suc (count_dirs cs + count_dirs es)"

text \<open>What the script does with a visited entry, as the host calls and the discovered
  item show it: a directory is listed and gives a directory item; anything else is
  opened, read whole and closed, and gives a file item with the bytes read.\<close>

fun treated :: "host \<Rightarrow> event list \<Rightarrow> pystr \<times> node \<Rightarrow> item \<Rightarrow> bool" where
  "treated h tr (q, Dir n cs) x =
     (isdir h q \<and> listdir h q = Some (map name_of cs) \<and> ListDir q \<in> set tr
      \<and> is_dir_item x)"
| "treated h tr (q, File n d) x =
     (\<not> isdir h q \<and> read_rb h q = Some d \<and> OpenRead q \<in> set tr \<and> ReadAll q \<in> set tr
      \<and> CloseRead q \<in> set tr
      \<and> (case x of DirItem p \<Rightarrow> False | FileItem p d' \<Rightarrow> d' = d))"

text \<open>A run in which the output file is named inside the input directory: when the walk
  lists \<open>root\<close>, the file \<open>root/out.c\<close> is there (the script has just opened it for
  writing) and it is still empty.\<close>

definition inside_host :: host where
  "inside_host =
     \<lparr>listdir = (\<lambda>p. if p = py ''root'' then Some [py ''out.c''] else None),
      isdir = (\<lambda>p. p = py ''root''),
      read_rb = (\<lambda>p. if p = py ''root/out.c'' then Some [] else None),
      open_w = (\<lambda>p. p = py ''root/out.c''),
      encodable = utf8_encodable\<rparr>"

definition inside_argv :: "pystr list" where
  "inside_argv = [py ''ramfs-gen.py'', py ''root'', py ''root/out.c'', py ''populate'']"

definition inside_run :: run where
  "inside_run =
     \<lparr>exit_code = 0, raised = None, stdout = [],
      calls = [OpenWrite (py ''root/out.c''), ListDir (py ''root''),
               IsDir (py ''root/out.c''), OpenRead (py ''root/out.c''),
               ReadAll (py ''root/out.c''), CloseRead (py ''root/out.c''),
               CloseWrite (py ''root/out.c'')],
      out_text = assemble (py ''populate'') [File (py ''out.c'') []]\<rparr>"

subsection \<open>The generated function on the target filesystem\<close>

text \<open>
  The script writes text; the compiler reads bytes.  \<open>open(sys.argv[2], "w")\<close> encodes
  the text with the locale's encoding, which is a parameter \<open>enc\<close> here (a code point to
  its bytes, each byte a natural below 256); \<open>utf8\<close> is the encoding of the usual build
  hosts.
\<close>

definition utf8 :: "nat \<Rightarrow> nat list" where
  "utf8 c =
     (if c < 128 then [c]
      else if c < 2048 then [192 + c div 64, 128 + c mod 64]
      else if c < 65536 then [224 + c div 4096, 128 + c div 64 mod 64, 128 + c mod 64]
      else [240 + c div 262144, 128 + c div 4096 mod 64, 128 + c div 64 mod 64,
            128 + c mod 64])"

definition encode :: "(nat \<Rightarrow> nat list) \<Rightarrow> pystr \<Rightarrow> nat list" where
  "encode enc s = concat (map enc s)"

text \<open>
  The two calls of the generated body with the arguments the script formats into them:
  the text of the string literal and the number after it (and the blob index).
  \<open>compile_op\<close> gives the call for an operation; its text is that of \<open>render_op\<close>.
\<close>

datatype call = MakeDir pystr nat | OpenWriteDrop pystr nat nat

fun compile_op :: "op \<Rightarrow> call" where
  "compile_op (MkDir p) = MakeDir (escape p) (length p)"
| "compile_op (WriteFile p k) = OpenWriteDrop (escape p) (length p) k"

fun render_call :: "call \<Rightarrow> pystr" where
  "render_call (MakeDir lit n) = mkdir_line lit n"
| "render_call (OpenWriteDrop lit n k) =
     open_line lit n @ assert_open_line @ write_line (blob_name k)
       @ assert_len_line (blob_name k) @ drop_line"

text \<open>
  The path a call receives: the literal denotes the bytes that \<open>c_unescape\<close> reads from
  the encoded text, and the callee takes the first \<open>n\<close> of them.  A number beyond the end
  of the array is not given a meaning (\<open>None\<close>).
\<close>

definition c_path :: "(nat \<Rightarrow> nat list) \<Rightarrow> pystr \<Rightarrow> nat \<Rightarrow> nat list option" where
  "c_path enc lit n =
     (case c_unescape (encode enc lit) of
        None \<Rightarrow> None
      | Some bs \<Rightarrow> if n \<le> length bs then Some (take n bs) else None)"

text \<open>
  Modelled from the spec: the target virtual filesystem (the kernel's filesystem.h and
  its implementation are not among the sources).  The specification asks of it a
  "create node of directory type at path" operation returning a status, an
  "open-or-create write-only file by path" operation, a "write N bytes to handle"
  operation returning the bytes written, a release of the handle, and an assertion that
  halts the program when its condition is false.  A filesystem is a map from absolute
  paths (byte strings) to nodes, the root being the empty path.  A node can be created
  where its name is not empty, its parent directory exists and nothing has its path;
  opening creates an absent file as empty and fails on a directory; writing replaces
  the bytes from offset 0.  \<open>None\<close> is a failed assertion.
\<close>

datatype tnode = TDir | TFile "byte list"

type_synonym tfs = "nat list \<Rightarrow> tnode option"

definition dir_name :: "nat list \<Rightarrow> nat list" where
  "dir_name p = rev (tl (dropWhile (\<lambda>c. c \<noteq> 47) (rev p)))"

definition base_name :: "nat list \<Rightarrow> nat list" where
  "base_name p = rev (takeWhile (\<lambda>c. c \<noteq> 47) (rev p))"

definition dir_exists :: "tfs \<Rightarrow> nat list \<Rightarrow> bool" where
  "dir_exists fs d = (d = [] \<or> fs d = Some TDir)"

definition fs_make_dir :: "tfs \<Rightarrow> nat list \<Rightarrow> tfs option" where
  "fs_make_dir fs p =
     (if base_name p \<noteq> [] \<and> dir_exists fs (dir_name p) \<and> fs p = None
      then Some (fs(p \<mapsto> TDir)) else None)"

definition fs_open_create :: "tfs \<Rightarrow> nat list \<Rightarrow> tfs option" where
  "fs_open_create fs p =
     (case fs p of
        Some (TFile old) \<Rightarrow> Some fs
      | Some TDir \<Rightarrow> None
      | None \<Rightarrow>
          if base_name p \<noteq> [] \<and> dir_exists fs (dir_name p) then Some (fs(p \<mapsto> TFile []))
          else None)"

definition fs_write_all :: "tfs \<Rightarrow> nat list \<Rightarrow> byte list \<Rightarrow> tfs option" where
  "fs_write_all fs p data =
     (case fs p of
        Some (TFile old) \<Rightarrow> Some (fs(p \<mapsto> TFile (data @ drop (length data) old)))
      | _ \<Rightarrow> None)"

fun exec_call :: "(nat \<Rightarrow> nat list) \<Rightarrow> byte list list \<Rightarrow> call \<Rightarrow> tfs \<Rightarrow> tfs option" where
  "exec_call enc blobs (MakeDir lit n) fs =
     (case c_path enc lit n of None \<Rightarrow> None | Some p \<Rightarrow> fs_make_dir fs p)"
| "exec_call enc blobs (OpenWriteDrop lit n k) fs =
     (if k < length blobs then
        (case c_path enc lit n of
           None \<Rightarrow> None
         | Some p \<Rightarrow>
             (case fs_open_create fs p of
                None \<Rightarrow> None
              | Some fs' \<Rightarrow> fs_write_all fs' p (blobs ! k)))
      else None)"

fun exec_calls :: "(nat \<Rightarrow> nat list) \<Rightarrow> byte list list \<Rightarrow> call list \<Rightarrow> tfs \<Rightarrow> tfs option" where
  "exec_calls enc blobs [] fs = Some fs"
| "exec_calls enc blobs (c # cs) fs =
     (case exec_call enc blobs c fs of
        None \<Rightarrow> None
      | Some fs' \<Rightarrow> exec_calls enc blobs cs fs')"

text \<open>The generated function for a tree, run on the empty filesystem: blob \<open>k\<close> holds the
  bytes of the \<open>k\<close>-th discovered file.\<close>

definition run_target :: "(nat \<Rightarrow> nat list) \<Rightarrow> node list \<Rightarrow> tfs option" where
  "run_target enc es =
     exec_calls enc (map snd (file_items (walk [] es))) (map compile_op (body_ops es))
       Map.empty"

text \<open>The filesystem holds the tree: its paths are the (encoded) virtual paths of the
  discovered items, with a directory at each directory's path and a file with the same
  bytes at each file's path.\<close>

definition reproduces :: "(nat \<Rightarrow> nat list) \<Rightarrow> node list \<Rightarrow> tfs \<Rightarrow> bool" where
  "reproduces enc es fs =
     (dom fs = (\<lambda>x. encode enc (item_path x)) ` set (walk [] es)
      \<and> (\<forall>p. DirItem p \<in> set (walk [] es) \<longrightarrow> fs (encode enc p) = Some TDir)
      \<and> (\<forall>p d. FileItem p d \<in> set (walk [] es) \<longrightarrow> fs (encode enc p) = Some (TFile d)))"

text \<open>Entry names as a directory gives them: not empty, without a slash, and different
  from the names of the other entries of the same directory.\<close>

fun well_named :: "node list \<Rightarrow> bool" where
  "well_named [] = True"
| "well_named (File n d # es) =
     (n \<noteq> [] \<and> 47 \<notin> set n \<and> n \<notin> name_of ` set es \<and> well_named es)"
| "well_named (Dir n cs # es) =
     (n \<noteq> [] \<and> 47 \<notin> set n \<and> n \<notin> name_of ` set es \<and> well_named cs \<and> well_named es)"

text \<open>Every character of every entry name is an ASCII character.\<close>

fun ascii_names :: "node list \<Rightarrow> bool" where
  "ascii_names [] = True"
| "ascii_names (File n d # es) = ((\<forall>c \<in> set n. c < 128) \<and> ascii_names es)"
| "ascii_names (Dir n cs # es) = ((\<forall>c \<in> set n. c < 128) \<and> ascii_names cs \<and> ascii_names es)"

text \<open>A host whose input directory holds one empty file, named by the single character
  U+00E9 (e with acute accent).\<close>

definition accent_host :: host where
  "accent_host =
     \<lparr>listdir = (\<lambda>p. if p = py ''root'' then Some [[233]] else None),
      isdir = (\<lambda>p. p = py ''root''),
      read_rb = (\<lambda>p. if p = py ''root/'' @ [233] then Some [] else None),
      open_w = (\<lambda>p. p = py ''out.c''),
      encodable = utf8_encodable\<rparr>"

definition accent_tree :: "node list" where
  "accent_tree = [File [233] []]"

section \<open>Properties\<close>

subsection \<open>The walk on a host that presents a tree\<close>

lemma file_items_append: "file_items (xs @ ys) = file_items xs @ file_items ys"
  by (induction xs rule: file_items.induct) simp_all

lemma dir_items_append: "dir_items (xs @ ys) = dir_items xs @ dir_items ys"
  by (induction xs rule: dir_items.induct) simp_all

lemma roms_of_append: "roms_of k (fs @ gs) = roms_of k fs @ roms_of (k + length fs) gs"
  by (induction k fs rule: roms_of.induct) simp_all

lemma files_of_append: "files_of k (fs @ gs) = files_of k fs @ files_of (k + length fs) gs"
  by (induction k fs rule: files_of.induct) simp_all

lemma dirs_of_append: "dirs_of (ps @ qs) = dirs_of ps @ dirs_of qs"
  by (induction ps) simp_all

lemma emitted_Nil: "emitted path vp [] st = st"
  by (simp add: emitted_def)

lemma emitted_File:
  "emitted path vp (File n d # es) st =
     emitted path vp es
       (st\<lparr>roms := roms st @ rom_text (blob_name (file_count st)) d,
           files := files st @ file_text (vp @ py ''/'' @ n) (blob_name (file_count st)),
           trace := trace st @ [IsDir (path @ py ''/'' @ n), OpenRead (path @ py ''/'' @ n),
                      ReadAll (path @ py ''/'' @ n), CloseRead (path @ py ''/'' @ n)],
           file_count := Suc (file_count st)\<rparr>)"
  by (simp add: emitted_def)

lemma emitted_Dir:
  "emitted path vp (Dir n cs # es) st =
     emitted path vp es
       (emitted (path @ py ''/'' @ n) (vp @ py ''/'' @ n) cs
         (log [IsDir (path @ py ''/'' @ n), ListDir (path @ py ''/'' @ n)]
           (st\<lparr>dirs := dirs st @ mkdir_line (escape (vp @ py ''/'' @ n))
                                  (length (vp @ py ''/'' @ n))\<rparr>)))"
  by (simp add: emitted_def log_def file_items_append dir_items_append roms_of_append
      files_of_append dirs_of_append)

lemma log_log: "log a (log b st) = log (b @ a) st"
  by (simp add: log_def)

lemma add_rom_presents:
  "read_rb h path = Some d \<Longrightarrow>
   add_rom h path vp name st =
     Inr (log [OpenRead path, ReadAll path, CloseRead path]
            (st\<lparr>roms := roms st @ rom_text name d, files := files st @ file_text vp name\<rparr>))"
  by (simp add: add_rom_def)

lemma add_entries_presents:
  "presents_each h path es \<Longrightarrow> height es \<le> k \<Longrightarrow>
   add_entries k h path vp (map name_of es) st = Inr (emitted path vp es st)"
proof (induction es arbitrary: k st path vp rule: height.induct)
  case 1
  then show ?case by (simp add: emitted_Nil)
next
  case (2 n d es)
  then show ?case
    by (simp add: emitted_File add_rom_presents log_log log_def blob_name_def)
next
  case (3 n cs es)
  from "3.prems" obtain k' where k: "k = Suc k'" and hc: "height cs \<le> k'"
    by (cases k) auto
  from "3.prems" have pc: "presents_each h (path @ py ''/'' @ n) cs"
    and lc: "listdir h (path @ py ''/'' @ n) = Some (map name_of cs)"
    and isd: "isdir h (path @ py ''/'' @ n)" and pe: "presents_each h path es"
    and he: "height es \<le> k" by auto
  show ?case
    using "3.IH"(1)[OF pc hc] "3.IH"(2)[OF pe he] isd lc
    by (simp add: k emitted_Dir log_log)
qed

lemma add_dir_presents:
  "presents h path es \<Longrightarrow> height es < limit \<Longrightarrow>
   add_dir limit h path vp st = Inr (emitted path vp es (log [ListDir path] st))"
  by (cases limit) (simp_all add: add_entries_presents)

subsection \<open>escape\<close>

lemma replace_single:
  "replace s [c] new = concat (map (\<lambda>x. if x = c then new else [x]) s)"
proof (induction s)
  case Nil
  show ?case by (subst replace.simps) simp
next
  case (Cons x xs)
  show ?case by (subst replace.simps) (use Cons.IH in auto)
qed

lemma concat_map_concat_map:
  "concat (map g (concat (map f s))) = concat (map (\<lambda>x. concat (map g (f x))) s)"
  by (induction s) simp_all

lemma escape_charwise: "escape s = concat (map escape_char_spec s)"
  unfolding escape_def replace_single concat_map_concat_map
  by (rule arg_cong[where f = concat], rule map_cong[OF refl]) (simp add: escape_char_spec_def)

lemma c_unescape_plain:
  "c \<noteq> 92 \<Longrightarrow> c \<noteq> 34 \<Longrightarrow> c \<noteq> 10 \<Longrightarrow> c_unescape (c # cs) = map_option ((#) c) (c_unescape cs)"
  by (cases cs) simp_all

lemma c_unescape_escape_char:
  "c_unescape (escape_char_spec c @ cs) = map_option ((#) c) (c_unescape cs)"
  by (simp add: escape_char_spec_def c_unescape_plain simple_escape_def)

lemma c_unescape_charwise: "c_unescape (concat (map escape_char_spec s)) = Some s"
  by (induction s) (simp_all add: c_unescape_escape_char)

lemma c_unescape_escape: "c_unescape (escape s) = Some s"
  by (simp add: escape_charwise c_unescape_charwise)

lemma c_unescape_plain_run:
  "\<forall>b \<in> set bs. b \<noteq> 92 \<and> b \<noteq> 34 \<and> b \<noteq> 10 \<Longrightarrow>
   c_unescape (bs @ cs) = map_option ((@) bs) (c_unescape cs)"
proof (induction bs)
  case Nil
  show ?case by (simp add: option.map_ident)
next
  case (Cons b bs)
  then show ?case
    by (simp add: c_unescape_plain option.map_comp comp_def)
qed

lemma utf8_plain: "128 \<le> c \<Longrightarrow> \<forall>b \<in> set (utf8 c). b \<noteq> 92 \<and> b \<noteq> 34 \<and> b \<noteq> 10"
  by (simp add: utf8_def)

lemma c_unescape_utf8_char:
  "c_unescape (encode utf8 (escape_char_spec c) @ cs) = map_option ((@) (utf8 c)) (c_unescape cs)"
proof (cases "c < 128")
  case True
  have "(@) [x] = (#) x" for x :: nat by (rule ext) simp
  with True show ?thesis
    by (simp add: encode_def escape_char_spec_def utf8_def c_unescape_plain simple_escape_def)
next
  case False
  then have "encode utf8 (escape_char_spec c) = utf8 c"
    by (simp add: encode_def escape_char_spec_def)
  moreover from False have "\<forall>b \<in> set (utf8 c). b \<noteq> 92 \<and> b \<noteq> 34 \<and> b \<noteq> 10"
    by (intro utf8_plain) simp
  ultimately show ?thesis by (simp only: c_unescape_plain_run)
qed

lemma c_unescape_utf8_escape: "c_unescape (encode utf8 (escape s)) = Some (encode utf8 s)"
proof -
  have "c_unescape (encode utf8 (concat (map escape_char_spec s))) = Some (encode utf8 s)"
  proof (induction s)
    case Nil
    show ?case by (simp add: encode_def)
  next
    case (Cons c s)
    have "encode utf8 (concat (map escape_char_spec (c # s)))
        = encode utf8 (escape_char_spec c) @ encode utf8 (concat (map escape_char_spec s))"
      by (simp add: encode_def)
    then show ?case using Cons.IH by (simp add: c_unescape_utf8_char) (simp add: encode_def)
  qed
  then show ?thesis by (simp add: escape_charwise)
qed

text \<open>
  C3.  \<open>escape\<close> rewrites a string character by character: backslash, carriage return,
  line feed and double quote become a backslash followed by a backslash, by \<open>r\<close>, by
  \<open>n\<close> and by a double quote, and every other character stays as it is.  Reading the
  result as the body of a C string literal gives the string back, character by character
  and also byte by byte when the text is written in UTF-8, and \<open>escape\<close> is injective.
\<close>

theorem escape_roundtrip:
  "escape s = concat (map escape_char_spec s) \<and> c_unescape (escape s) = Some s
   \<and> c_unescape (encode utf8 (escape s)) = Some (encode utf8 s) \<and> inj escape"
proof (intro conjI)
  show "escape s = concat (map escape_char_spec s)" by (rule escape_charwise)
  show "c_unescape (escape s) = Some s" by (rule c_unescape_escape)
  show "c_unescape (encode utf8 (escape s)) = Some (encode utf8 s)"
    by (rule c_unescape_utf8_escape)
  show "inj escape"
  proof (rule injI)
    fix x y assume "escape x = escape y"
    then have "c_unescape (escape x) = c_unescape (escape y)" by simp
    then show "x = y" by (simp add: c_unescape_escape)
  qed
qed

subsection \<open>Writes\<close>

lemma write_all_ok:
  "list_all ok (concat ss) \<Longrightarrow> write_all ok ss out = Inr (out @ concat ss)"
  by (induction ss arbitrary: out) simp_all

lemma write_all_Inr:
  "write_all ok ss out = Inr out' \<Longrightarrow> out' = out @ concat ss \<and> list_all ok (concat ss)"
proof (induction ss arbitrary: out)
  case Nil
  then show ?case by simp
next
  case (Cons s ss)
  then have s: "list_all ok s" and "write_all ok ss (out @ s) = Inr out'"
    by (auto split: if_splits)
  from Cons.IH[OF this(2)] s show ?case by simp
qed

lemma write_all_Inl:
  "write_all ok ss out = Inl (e, out') \<Longrightarrow> e = UnicodeEncodeError \<and> prefix out out'"
proof (induction ss arbitrary: out)
  case Nil
  then show ?case by simp
next
  case (Cons s ss)
  show ?case
  proof (cases "list_all ok s")
    case True
    with Cons.prems have "write_all ok ss (out @ s) = Inl (e, out')" by simp
    from Cons.IH[OF this] show ?thesis by (auto dest: append_prefixD)
  next
    case False
    with Cons.prems show ?thesis by simp
  qed
qed

subsection \<open>Runs of the walk\<close>

lemma add_dir_success_aux:
  "(\<forall>st'. add_dir limit h path vp st = Inr st' \<longrightarrow>
      (\<exists>es. presents h path es \<and> height es < limit
         \<and> st' = emitted path vp es (log [ListDir path] st)))"
  "(\<forall>st'. add_entries k h path vp names st = Inr st' \<longrightarrow>
      (\<exists>es. map name_of es = names \<and> presents_each h path es \<and> height es \<le> k
         \<and> st' = emitted path vp es st))"
proof (induction limit h path vp st and k h path vp names st rule: add_dir_add_entries.induct)
  case (1 h path virtpath st)
  show ?case by simp
next
  case (2 k h path virtpath st)
  show ?case
  proof (intro allI impI)
    fix st' assume a: "add_dir (Suc k) h path virtpath st = Inr st'"
    then obtain names where l: "listdir h path = Some names"
      and e: "add_entries k h path virtpath names (log [ListDir path] st) = Inr st'"
      by (auto split: option.splits)
    from 2[OF l] e obtain es where "map name_of es = names" "presents_each h path es"
      "height es \<le> k" "st' = emitted path virtpath es (log [ListDir path] st)" by blast
    with l show "\<exists>es. presents h path es \<and> height es < Suc k
         \<and> st' = emitted path virtpath es (log [ListDir path] st)"
      by (intro exI[of _ es]) simp
  qed
next
  case (3 k h path virtpath st)
  show ?case by (auto intro: exI[of _ "[]"] simp: emitted_Nil)
next
  case (4 k h path virtpath filename rest st)
  let ?p = "path @ py ''/'' @ filename"
  let ?v = "virtpath @ py ''/'' @ filename"
  show ?case
  proof (intro allI impI)
    fix st' assume a: "add_entries k h path virtpath (filename # rest) st = Inr st'"
    show "\<exists>es. map name_of es = filename # rest \<and> presents_each h path es \<and> height es \<le> k
         \<and> st' = emitted path virtpath es st"
    proof (cases "isdir h ?p")
      case True
      let ?s1 = "log [IsDir ?p] (st\<lparr>dirs := dirs st @ mkdir_line (escape ?v)
                         (length virtpath + 1 + length filename)\<rparr>)"
      from a True obtain st1 where d: "add_dir k h ?p ?v ?s1 = Inr st1"
        and r: "add_entries k h path virtpath rest st1 = Inr st'"
        by (auto split: sum.splits)
      from "4.IH"(1)[OF True] d obtain cs where cs: "presents h ?p cs" "height cs < k"
        "st1 = emitted ?p ?v cs (log [ListDir ?p] ?s1)" by blast
      from "4.IH"(2)[OF True d] r obtain es where es: "map name_of es = rest"
        "presents_each h path es" "height es \<le> k" "st' = emitted path virtpath es st1"
        by blast
      show ?thesis
        using True cs es
        by (intro exI[of _ "Dir filename cs # es"]) (simp add: emitted_Dir log_log log_def)
    next
      case False
      let ?s0 = "log [IsDir ?p] st"
      from a False obtain st1 where d: "add_rom h ?p ?v (py ''filerom_'' @ show_nat (file_count st)) ?s0 = Inr st1"
        and r: "add_entries k h path virtpath rest (st1\<lparr>file_count := file_count st1 + 1\<rparr>) = Inr st'"
        by (auto split: sum.splits)
      from d obtain data where rd: "read_rb h ?p = Some data"
        by (auto simp: add_rom_def split: option.splits)
      from "4.IH"(3)[OF False d] r obtain es where es: "map name_of es = rest"
        "presents_each h path es" "height es \<le> k"
        "st' = emitted path virtpath es (st1\<lparr>file_count := file_count st1 + 1\<rparr>)"
        by blast
      from d rd have st1: "st1 = log [OpenRead ?p, ReadAll ?p, CloseRead ?p]
            (?s0\<lparr>roms := roms ?s0 @ rom_text (py ''filerom_'' @ show_nat (file_count st)) data,
                 files := files ?s0 @ file_text ?v (py ''filerom_'' @ show_nat (file_count st))\<rparr>)"
        by (simp add: add_rom_def)
      show ?thesis
        using False rd es
        by (intro exI[of _ "File filename data # es"])
          (simp add: emitted_File st1 log_def blob_name_def)
    qed
  qed
qed

lemma add_dir_success:
  "add_dir limit h path vp st = Inr st' \<Longrightarrow>
   \<exists>es. presents h path es \<and> height es < limit
      \<and> st' = emitted path vp es (log [ListDir path] st)"
  using add_dir_success_aux(1) by blast

lemma add_rom_trace:
  "add_rom h path vp name st = Inl (e, st') \<Longrightarrow> prefix (trace st) (trace st') \<and> e = OSError path"
  "add_rom h path vp name st = Inr st' \<Longrightarrow> prefix (trace st) (trace st')"
  by (auto simp: add_rom_def log_def split: option.splits)

lemma add_dir_failure_aux:
  "(\<forall>e st'. add_dir limit h path vp st = Inl (e, st') \<longrightarrow>
      prefix (trace st) (trace st') \<and> (e = RecursionError \<or> (\<exists>p. e = OSError p)))"
  "(\<forall>e st'. add_entries k h path vp names st = Inl (e, st') \<longrightarrow>
      prefix (trace st) (trace st') \<and> (e = RecursionError \<or> (\<exists>p. e = OSError p)))"
proof (induction limit h path vp st and k h path vp names st rule: add_dir_add_entries.induct)
  case (1 h path virtpath st)
  show ?case by simp
next
  case (2 k h path virtpath st)
  show ?case
  proof (intro allI impI)
    fix e st' assume a: "add_dir (Suc k) h path virtpath st = Inl (e, st')"
    show "prefix (trace st) (trace st') \<and> (e = RecursionError \<or> (\<exists>p. e = OSError p))"
    proof (cases "listdir h path")
      case None
      with a show ?thesis by (auto simp: log_def)
    next
      case (Some names)
      with a have "add_entries k h path virtpath names (log [ListDir path] st) = Inl (e, st')"
        by simp
      with 2[OF Some] have "prefix (trace (log [ListDir path] st)) (trace st')"
        "e = RecursionError \<or> (\<exists>p. e = OSError p)" by blast+
      then show ?thesis by (auto simp: log_def dest: append_prefixD)
    qed
  qed
next
  case (3 k h path virtpath st)
  show ?case by simp
next
  case (4 k h path virtpath filename rest st)
  let ?p = "path @ py ''/'' @ filename"
  let ?v = "virtpath @ py ''/'' @ filename"
  show ?case
  proof (intro allI impI)
    fix e st' assume a: "add_entries k h path virtpath (filename # rest) st = Inl (e, st')"
    show "prefix (trace st) (trace st') \<and> (e = RecursionError \<or> (\<exists>p. e = OSError p))"
    proof (cases "isdir h ?p")
      case True
      let ?s1 = "log [IsDir ?p] (st\<lparr>dirs := dirs st @ mkdir_line (escape ?v)
                         (length virtpath + 1 + length filename)\<rparr>)"
      have t1: "prefix (trace st) (trace ?s1)" by (simp add: log_def)
      show ?thesis
      proof (cases "add_dir k h ?p ?v ?s1")
        case (Inl x)
        with a True have x: "x = (e, st')" by simp
        with Inl "4.IH"(1)[OF True] have "prefix (trace ?s1) (trace st')"
          "e = RecursionError \<or> (\<exists>p. e = OSError p)" by blast+
        with t1 show ?thesis by (auto intro: prefix_order.trans)
      next
        case (Inr st1)
        with a True have r: "add_entries k h path virtpath rest st1 = Inl (e, st')" by simp
        from add_dir_success[OF Inr] have "prefix (trace ?s1) (trace st1)"
          by (auto simp: emitted_def log_def)
        moreover from "4.IH"(2)[OF True Inr] r have "prefix (trace st1) (trace st')"
          "e = RecursionError \<or> (\<exists>p. e = OSError p)" by blast+
        ultimately show ?thesis using t1 by (auto intro: prefix_order.trans)
      qed
    next
      case False
      let ?s0 = "log [IsDir ?p] st"
      have t0: "prefix (trace st) (trace ?s0)" by (simp add: log_def)
      show ?thesis
      proof (cases "add_rom h ?p ?v (py ''filerom_'' @ show_nat (file_count st)) ?s0")
        case (Inl x)
        with a False have x: "x = (e, st')" by simp
        from add_rom_trace(1)[OF Inl[unfolded x]] t0 show ?thesis
          by (auto intro: prefix_order.trans)
      next
        case (Inr st1)
        with a False have r: "add_entries k h path virtpath rest
            (st1\<lparr>file_count := file_count st1 + 1\<rparr>) = Inl (e, st')" by simp
        from add_rom_trace(2)[OF Inr] have "prefix (trace ?s0) (trace st1)" .
        moreover from "4.IH"(3)[OF False Inr] r
        have "prefix (trace (st1\<lparr>file_count := file_count st1 + 1\<rparr>)) (trace st')"
          "e = RecursionError \<or> (\<exists>p. e = OSError p)" by blast+
        ultimately show ?thesis using t0 by (auto intro: prefix_order.trans)
      qed
    qed
  qed
qed

lemma add_dir_failure:
  "add_dir limit h path vp st = Inl (e, st') \<Longrightarrow>
   prefix (trace st) (trace st') \<and> (e = RecursionError \<or> (\<exists>p. e = OSError p))"
  using add_dir_failure_aux(1) by blast

subsection \<open>Whole runs\<close>

lemma main_presents_any:
  assumes "length argv = 4" and "open_w h (argv ! 2)" and "presents h (argv ! 1) es"
    and "height es < limit"
  shows "main limit h argv = tree_run (encodable h) argv es"
proof -
  have "add_dir limit h (argv ! 1) [] (init_state [OpenWrite (argv ! 2)]) =
          Inr (emitted (argv ! 1) [] es (log [ListDir (argv ! 1)] (init_state [OpenWrite (argv ! 2)])))"
    by (rule add_dir_presents[OF assms(3,4)])
  then show ?thesis
    unfolding main_def tree_run_def using assms(1,2)
    by (simp add: emitted_def log_def init_state_def tail_chunks_def split: sum.splits)
qed

lemma tree_run_finished:
  assumes "list_all ok (assemble (argv ! 3) es)"
  shows "tree_run ok argv es = finished argv es"
proof -
  from assms have 1: "list_all ok (concat header_lines)"
    and 2: "list_all ok (concat (tail_chunks (argv ! 3) es))"
    by (simp_all add: assemble_def)
  show ?thesis
    unfolding tree_run_def finished_def assemble_def
    by (simp add: write_all_ok[OF 1] write_all_ok[OF 2])
qed

lemma main_presents:
  assumes "length argv = 4" and "open_w h (argv ! 2)" and "presents h (argv ! 1) es"
    and "height es < limit" and "list_all (encodable h) (assemble (argv ! 3) es)"
  shows "main limit h argv = finished argv es"
  using main_presents_any[OF assms(1-4)] tree_run_finished[OF assms(5)] by simp

lemma main_success:
  assumes "length argv = 4" and "raised (main limit h argv) = None"
  shows "\<exists>es. open_w h (argv ! 2) \<and> presents h (argv ! 1) es \<and> height es < limit
           \<and> list_all (encodable h) (assemble (argv ! 3) es)
           \<and> main limit h argv = finished argv es"
proof -
  from assms have ow: "open_w h (argv ! 2)"
    by (auto simp: main_def crashed_def split: if_splits)
  from assms ow obtain out where
    w1: "write_all (encodable h) header_lines [] = Inr out"
    by (auto simp: main_def crashed_def split: sum.splits)
  from assms ow w1 obtain st where
    d: "add_dir limit h (argv ! 1) [] (init_state [OpenWrite (argv ! 2)]) = Inr st"
    by (auto simp: main_def crashed_def split: sum.splits)
  from add_dir_success[OF d] obtain es where es: "presents h (argv ! 1) es" "height es < limit"
    by blast
  have m: "main limit h argv = tree_run (encodable h) argv es"
    by (rule main_presents_any[OF assms(1) ow es])
  with assms(2) obtain out' where
    w2: "write_all (encodable h) (tail_chunks (argv ! 3) es) out = Inr out'"
    by (auto simp: tree_run_def w1 crashed_def split: sum.splits)
  from write_all_Inr[OF w1] write_all_Inr[OF w2]
  have "list_all (encodable h) (assemble (argv ! 3) es)" by (simp add: assemble_def)
  with m tree_run_finished[OF this] ow es show ?thesis by auto
qed

lemma main_exit_code:
  "length argv = 4 \<Longrightarrow> exit_code (main limit h argv) = 0 \<longleftrightarrow> raised (main limit h argv) = None"
  by (auto simp: main_def crashed_def split: sum.splits)

subsection \<open>The text, spelled out\<close>

lemma roms_of_enumerate:
  "roms_of k fs = concat (map (\<lambda>(i, p, d). rom_text (blob_name i) d) (enumerate k fs))"
  by (induction k fs rule: roms_of.induct) simp_all

lemma files_of_enumerate:
  "files_of k fs = concat (map (\<lambda>(i, p, d). file_text p (blob_name i)) (enumerate k fs))"
  by (induction k fs rule: files_of.induct) simp_all

lemma dirs_of_concat: "dirs_of ps = concat (map (\<lambda>p. mkdir_line (escape p) (length p)) ps)"
  by (induction ps) simp_all

lemma rom_byte_spelled: "rom_byte = (\<lambda>b. py ''0x'' @ fmt_02x (unat b) @ py '','')"
  by (rule ext) (simp add: rom_byte_def)

lemma rom_text_spelled: "rom_text (blob_name k) d = blob_text k d"
  unfolding rom_byte_spelled rom_text_def
  by (simp add: rom_head_def rom_tail_def rom_len_def blob_name_def)

lemma file_text_spelled: "file_text p (blob_name k) = write_file_text p k"
  by (simp add: file_text_def open_line_def assert_open_line_def write_line_def
      assert_len_line_def drop_line_def blob_name_def)

lemma mkdir_line_spelled: "mkdir_line (escape p) (length p) = make_dir_text p"
  by (simp add: mkdir_line_def)

lemma roms_of_spelled:
  "roms_of k fs = concat (map (\<lambda>(i, p, d). blob_text i d) (enumerate k fs))"
  unfolding roms_of_enumerate rom_text_spelled ..

lemma files_of_spelled:
  "files_of k fs = concat (map (\<lambda>(i, p, d). write_file_text p i) (enumerate k fs))"
  unfolding files_of_enumerate file_text_spelled ..

lemma dirs_of_spelled: "dirs_of ps = concat (map make_dir_text ps)"
  unfolding dirs_of_concat mkdir_line_spelled ..

lemma header_spelled: "concat header_lines = head_text"
  by (simp add: header_lines_def)

lemma func_head_spelled: "concat (func_head_lines name) = func_open_text name"
  by (simp add: func_head_lines_def)

lemma func_tail_spelled: "concat func_tail_lines = func_close_text"
  by (simp add: func_tail_lines_def)

lemma assemble_spelled: "assemble name es = generated_text name (walk [] es)"
proof -
  have "assemble name es =
      concat header_lines @ roms_of 0 (file_items (walk [] es)) @ concat (func_head_lines name)
      @ dirs_of (dir_items (walk [] es)) @ files_of 0 (file_items (walk [] es))
      @ concat func_tail_lines"
    by (simp add: assemble_def tail_chunks_def)
  then show ?thesis
    unfolding header_spelled func_head_spelled func_tail_spelled roms_of_spelled
      files_of_spelled dirs_of_spelled by simp
qed

subsection \<open>The numbers\<close>

lemma read_digits_snoc:
  "read_digits acc (xs @ [c]) =
     (case read_digits acc xs of
        None \<Rightarrow> None
      | Some v \<Rightarrow> (case digit_value c of None \<Rightarrow> None | Some d \<Rightarrow> Some (10 * v + d)))"
  by (induction xs arbitrary: acc) (simp_all split: option.splits)

lemma read_digits_show_nat: "read_digits 0 (show_nat n) = Some n"
proof (induction n rule: show_nat.induct)
  case (1 n)
  show ?case
  proof (cases "n < 10")
    case True
    then show ?thesis by (subst show_nat.simps) (simp add: digit_value_def)
  next
    case False
    have "digit_value (48 + n mod 10) = Some (n mod 10)" by (simp add: digit_value_def)
    with False "1.IH" show ?thesis
      by (subst show_nat.simps) (simp add: read_digits_snoc)
  qed
qed

lemma show_nat_nonempty: "show_nat n \<noteq> []"
  by (subst show_nat.simps) simp

lemma hd_show_nat: "hd (show_nat n) = 48 \<longleftrightarrow> n = 0"
proof (induction n rule: show_nat.induct)
  case (1 n)
  show ?case
  proof (cases "n < 10")
    case True
    then show ?thesis by (subst show_nat.simps) simp
  next
    case False
    then have "hd (show_nat n) = hd (show_nat (n div 10))"
      by (subst show_nat.simps) (simp add: show_nat_nonempty)
    with False "1.IH" show ?thesis by simp
  qed
qed

lemma read_nat_show_nat: "read_nat (show_nat n) = Some n"
proof (cases "n = 0")
  case True
  then show ?thesis by (simp add: read_nat_def show_nat.simps)
next
  case False
  then have "hd (show_nat n) \<noteq> 48" by (simp add: hd_show_nat)
  moreover from this have "show_nat n \<noteq> [48]" by auto
  ultimately show ?thesis
    by (simp add: read_nat_def show_nat_nonempty read_digits_show_nat)
qed

lemma hex_value_digit: "d < 16 \<Longrightarrow> hex_value (hex_digit d) = Some d"
  by (auto simp: hex_value_def hex_digit_def)

lemma hex_value_zero: "hex_value 48 = Some 0"
  by (simp add: hex_value_def)

lemma fmt_02x_byte:
  assumes "n < 256"
  shows "length (fmt_02x n) = 2 \<and> read_hex (py ''0x'' @ fmt_02x n) = Some n"
proof (cases "n < 16")
  case True
  then have "show_hex n = [hex_digit n]" by (subst show_hex.simps) simp
  with True show ?thesis by (simp add: fmt_02x_def hex_value_digit hex_value_zero)
next
  case False
  with assms have d: "n div 16 < 16" by simp
  then have "show_hex (n div 16) = [hex_digit (n div 16)]" by (subst show_hex.simps) simp
  with False have "show_hex n = [hex_digit (n div 16), hex_digit (n mod 16)]"
    by (subst show_hex.simps) simp
  with d show ?thesis by (simp add: fmt_02x_def hex_value_digit)
qed

lemma fmt_02x_unat:
  "length (fmt_02x (unat (b :: byte))) = 2
   \<and> read_hex (py ''0x'' @ fmt_02x (unat b)) = Some (unat b)"
proof -
  have "unat b < 2 ^ LENGTH(8)" by (rule unsigned_less)
  then have "unat b < 256" by simp
  then show ?thesis by (rule fmt_02x_byte)
qed

subsection \<open>The characters of the text\<close>

lemma show_nat_ascii: "set (show_nat n) \<subseteq> {c. c < 128}"
proof (induction n rule: show_nat.induct)
  case (1 n)
  show ?case
  proof (cases "n < 10")
    case True
    then show ?thesis by (subst show_nat.simps) simp
  next
    case False
    with "1.IH" show ?thesis by (subst show_nat.simps) auto
  qed
qed

lemma hex_digit_ascii: "d < 16 \<Longrightarrow> hex_digit d < 128"
  by (simp add: hex_digit_def)

lemma show_hex_ascii: "set (show_hex n) \<subseteq> {c. c < 128}"
proof (induction n rule: show_hex.induct)
  case (1 n)
  show ?case
  proof (cases "n < 16")
    case True
    then show ?thesis by (subst show_hex.simps) (simp add: hex_digit_ascii)
  next
    case False
    with "1.IH" show ?thesis by (subst show_hex.simps) (auto simp: hex_digit_ascii)
  qed
qed

lemma fmt_02x_ascii: "set (fmt_02x n) \<subseteq> {c. c < 128}"
  using show_hex_ascii[of n] by (auto simp: fmt_02x_def)

lemma escape_chars: "set (escape p) \<subseteq> {c. c < 128} \<union> set p"
  unfolding escape_charwise by (induction p) (auto simp: escape_char_spec_def)

lemma rom_text_chars: "set (rom_text (blob_name k) d) \<subseteq> {c. c < 128}"
proof -
  have "set (concat (map rom_byte d)) \<subseteq> {c. c < 128}"
    using fmt_02x_ascii by (induction d) (auto simp: rom_byte_def)
  then show ?thesis
    using show_nat_ascii[of k] show_nat_ascii[of "length d"]
    by (auto simp: rom_text_def rom_head_def rom_tail_def rom_len_def blob_name_def)
qed

lemma file_text_chars: "set (file_text p (blob_name k)) \<subseteq> {c. c < 128} \<union> set p"
  using show_nat_ascii[of k] show_nat_ascii[of "length p"] escape_chars[of p]
  by (auto simp: file_text_def open_line_def assert_open_line_def write_line_def
      assert_len_line_def drop_line_def blob_name_def)

lemma mkdir_line_chars: "set (mkdir_line (escape p) (length p)) \<subseteq> {c. c < 128} \<union> set p"
  using show_nat_ascii[of "length p"] escape_chars[of p]
  by (auto simp: mkdir_line_def)

lemma roms_of_chars: "set (roms_of k fs) \<subseteq> {c. c < 128}"
  using rom_text_chars by (induction k fs rule: roms_of.induct) auto

lemma files_of_chars:
  "\<forall>(p, d) \<in> set fs. set p \<subseteq> S \<Longrightarrow> {c. c < 128} \<subseteq> S \<Longrightarrow> set (files_of k fs) \<subseteq> S"
proof (induction k fs rule: files_of.induct)
  case (1 k)
  then show ?case by simp
next
  case (2 k p d fs)
  then show ?case using file_text_chars[of p k] by auto
qed

lemma dirs_of_chars:
  "\<forall>p \<in> set ps. set p \<subseteq> S \<Longrightarrow> {c. c < 128} \<subseteq> S \<Longrightarrow> set (dirs_of ps) \<subseteq> S"
proof (induction ps)
  case Nil
  then show ?case by simp
next
  case (Cons p ps)
  then show ?case using mkdir_line_chars[of p] by auto
qed

lemma walk_chars:
  "\<forall>n \<in> set (entry_names es). set n \<subseteq> S \<Longrightarrow> set vp \<subseteq> S \<Longrightarrow> 47 \<in> S \<Longrightarrow>
   (\<forall>p \<in> set (dir_items (walk vp es)). set p \<subseteq> S)
   \<and> (\<forall>(p, d) \<in> set (file_items (walk vp es)). set p \<subseteq> S)"
proof (induction vp es rule: walk.induct)
  case (1 vp)
  then show ?case by simp
next
  case (2 vp n d es)
  then show ?case by auto
next
  case (3 vp n cs es)
  from "3.prems" have a: "set (vp @ py ''/'' @ n) \<subseteq> S" by auto
  from "3.prems" have b: "\<forall>n \<in> set (entry_names cs). set n \<subseteq> S"
    "\<forall>n \<in> set (entry_names es). set n \<subseteq> S" by auto
  from "3.IH"(1)[OF b(1) a "3.prems"(3)] "3.IH"(2)[OF b(2) "3.prems"(2,3)] a
  show ?case by (auto simp: dir_items_append file_items_append)
qed

lemma header_lines_chars: "set (concat header_lines) \<subseteq> {c. c < 128}"
  by (simp add: header_lines_def)

lemma func_head_lines_chars: "set (concat (func_head_lines name)) \<subseteq> {c. c < 128} \<union> set name"
  by (auto simp: func_head_lines_def)

lemma func_tail_lines_chars: "set (concat func_tail_lines) \<subseteq> {c. c < 128}"
  by (simp add: func_tail_lines_def)

lemma writable_assemble:
  assumes "writable h name es"
  shows "list_all (encodable h) (assemble name es)"
proof -
  let ?S = "{c. encodable h c}"
  from assms have A: "{c. c < 128} \<subseteq> ?S" and N: "set name \<subseteq> ?S"
    and E: "\<forall>n \<in> set (entry_names es). set n \<subseteq> ?S"
    by (auto simp: writable_def list_all_iff)
  have "(47::nat) \<in> {c. c < 128}" by simp
  with A have s: "47 \<in> ?S" by (rule subsetD)
  from walk_chars[OF E _ s, of "[]"]
  have d: "\<forall>p \<in> set (dir_items (walk [] es)). set p \<subseteq> ?S"
    and f: "\<forall>(p, d) \<in> set (file_items (walk [] es)). set p \<subseteq> ?S" by auto
  have 1: "set (concat header_lines) \<subseteq> ?S"
    using header_lines_chars A by (rule subset_trans)
  have 2: "set (roms_of 0 (file_items (walk [] es))) \<subseteq> ?S"
    using roms_of_chars A by blast
  have 3: "set (concat (func_head_lines name)) \<subseteq> ?S"
    using func_head_lines_chars[of name] A N by blast
  have 4: "set (dirs_of (dir_items (walk [] es))) \<subseteq> ?S"
    by (rule dirs_of_chars[OF d A])
  have 5: "set (files_of 0 (file_items (walk [] es))) \<subseteq> ?S"
    by (rule files_of_chars[OF f A])
  have 6: "set (concat func_tail_lines) \<subseteq> ?S"
    using func_tail_lines_chars A by (rule subset_trans)
  have "set (assemble name es) \<subseteq> ?S"
    using 1 2 3 4 5 6 unfolding assemble_def tail_chunks_def
    by (simp del: set_concat)
  then show ?thesis by (auto simp: list_all_iff)
qed

lemma main_writable:
  assumes "length argv = 4" and "open_w h (argv ! 2)" and "presents h (argv ! 1) es"
    and "height es < limit" and "writable h (argv ! 3) es"
  shows "main limit h argv =
     \<lparr>exit_code = 0, raised = None, stdout = [],
      calls = OpenWrite (argv ! 2) # ListDir (argv ! 1) # walk_calls (argv ! 1) es
                @ [CloseWrite (argv ! 2)],
      out_text = generated_text (argv ! 3) (walk [] es)\<rparr>"
  using main_presents[OF assms(1-4) writable_assemble[OF assms(5)]]
  unfolding finished_def assemble_spelled .

subsection \<open>Two hosts with the same tree\<close>

lemma add_entries_same:
  "presents_each h path es \<Longrightarrow> presents_each h' path es \<Longrightarrow>
   add_entries k h path vp (map name_of es) st = add_entries k h' path vp (map name_of es) st"
proof (induction es arbitrary: k st path vp rule: height.induct)
  case 1
  then show ?case by simp
next
  case (2 n d es)
  then show ?case by (simp add: add_rom_presents)
next
  case (3 n cs es)
  let ?p = "path @ py ''/'' @ n"
  from "3.prems" have pc: "presents_each h ?p cs" "presents_each h' ?p cs"
    and lc: "listdir h ?p = Some (map name_of cs)" "listdir h' ?p = Some (map name_of cs)"
    and isd: "isdir h ?p" "isdir h' ?p"
    and pe: "presents_each h path es" "presents_each h' path es" by auto
  have d: "add_dir k h ?p v s = add_dir k h' ?p v s" for v s
  proof (cases k)
    case 0
    then show ?thesis by simp
  next
    case (Suc k')
    then show ?thesis using lc "3.IH"(1)[OF pc] by simp
  qed
  show ?case
    using isd d "3.IH"(2)[OF pe] by (simp split: sum.splits)
qed

lemma add_dir_same:
  "presents h path es \<Longrightarrow> presents h' path es \<Longrightarrow>
   add_dir k h path vp st = add_dir k h' path vp st"
  by (cases k) (simp_all add: add_entries_same)

lemma main_same:
  assumes "presents h (argv ! 1) es" and "presents h' (argv ! 1) es"
    and "open_w h (argv ! 2) = open_w h' (argv ! 2)" and "encodable h = encodable h'"
  shows "main limit h argv = main limit h' argv"
  unfolding main_def add_dir_same[OF assms(1,2)] assms(3,4) ..

lemma hex_digit_char: "d < 16 \<Longrightarrow> hex_digit d = py ''0123456789abcdef'' ! d"
proof -
  assume "d < 16"
  then have "d = 0 \<or> d = 1 \<or> d = 2 \<or> d = 3 \<or> d = 4 \<or> d = 5 \<or> d = 6 \<or> d = 7
      \<or> d = 8 \<or> d = 9 \<or> d = 10 \<or> d = 11 \<or> d = 12 \<or> d = 13 \<or> d = 14 \<or> d = 15"
    by arith
  then show ?thesis by (elim disjE) (simp_all add: hex_digit_def)
qed

lemma fmt_02x_digits:
  "fmt_02x (unat (b :: byte)) =
     [py ''0123456789abcdef'' ! (unat b div 16), py ''0123456789abcdef'' ! (unat b mod 16)]"
proof -
  have "unat b < 2 ^ LENGTH(8)" by (rule unsigned_less)
  then have n: "unat b < 256" by simp
  then have d: "unat b div 16 < 16" by simp
  have m: "unat b mod 16 < 16" by simp
  show ?thesis
  proof (cases "unat b < 16")
    case True
    then have "show_hex (unat b) = [hex_digit (unat b)]" by (subst show_hex.simps) simp
    with True show ?thesis by (simp add: fmt_02x_def hex_digit_char)
  next
    case False
    from d have "show_hex (unat b div 16) = [hex_digit (unat b div 16)]"
      by (subst show_hex.simps) simp
    with False have "show_hex (unat b) = [hex_digit (unat b div 16), hex_digit (unat b mod 16)]"
      by (subst show_hex.simps) simp
    then show ?thesis
      unfolding fmt_02x_def hex_digit_char[OF d] hex_digit_char[OF m] by simp
  qed
qed

subsection \<open>The scenario of the specification\<close>

lemma example_presents: "presents example_host (py ''root'') example_tree"
  by (simp add: example_host_def example_tree_def)

lemma example_height: "height example_tree = 1"
  by (simp add: example_tree_def)

lemma example_assemble: "assemble (py ''populate'') example_tree = example_output"
  by (simp add: assemble_def tail_chunks_def example_tree_def example_output_def
      header_lines_def func_head_lines_def func_tail_lines_def rom_text_def rom_head_def
      rom_byte_def rom_tail_def rom_len_def
      file_text_def open_line_def assert_open_line_def write_line_def assert_len_line_def
      drop_line_def mkdir_line_def blob_name_def show_nat.simps fmt_02x_def show_hex.simps
      hex_digit_def escape_charwise escape_char_spec_def)

lemma reversed_assemble: "assemble (py ''populate'') reversed_tree = reversed_output"
  by (simp add: assemble_def tail_chunks_def reversed_tree_def reversed_output_def
      header_lines_def func_head_lines_def func_tail_lines_def rom_text_def rom_head_def
      rom_byte_def rom_tail_def rom_len_def
      file_text_def open_line_def assert_open_line_def write_line_def assert_len_line_def
      drop_line_def mkdir_line_def blob_name_def show_nat.simps fmt_02x_def show_hex.simps
      hex_digit_def escape_charwise escape_char_spec_def)

lemma example_output_ascii: "list_all (\<lambda>c. c < 128) example_output"
  by (simp add: example_output_def)

lemma reversed_output_ascii: "list_all (\<lambda>c. c < 128) reversed_output"
  by (simp add: reversed_output_def)

lemma list_all_mono: "list_all P xs \<Longrightarrow> (\<And>x. P x \<Longrightarrow> Q x) \<Longrightarrow> list_all Q xs"
  by (induction xs) auto

lemma utf8_encodable_ascii: "c < 128 \<Longrightarrow> utf8_encodable c"
  by (simp add: utf8_encodable_def)

lemma example_argv_simps:
  "length example_argv = 4" "example_argv ! 1 = py ''root''"
  "example_argv ! 2 = py ''out.c''" "example_argv ! 3 = py ''populate''"
  by (simp_all add: example_argv_def)

lemma example_walk_calls:
  "OpenWrite out # ListDir root # walk_calls root example_tree @ [CloseWrite out] =
     [OpenWrite out, ListDir root,
      IsDir (root @ py ''/a.txt''), OpenRead (root @ py ''/a.txt''),
      ReadAll (root @ py ''/a.txt''), CloseRead (root @ py ''/a.txt''),
      IsDir (root @ py ''/sub''), ListDir (root @ py ''/sub''),
      IsDir (root @ py ''/sub/b.bin''), OpenRead (root @ py ''/sub/b.bin''),
      ReadAll (root @ py ''/sub/b.bin''), CloseRead (root @ py ''/sub/b.bin''),
      CloseWrite out]"
  by (simp add: example_tree_def)

lemma example_tree_run:
  assumes "length argv = 4" and "argv ! 3 = py ''populate''" and "open_w h (argv ! 2)"
    and "presents h (argv ! 1) example_tree" and "1 < limit"
    and "list_all (encodable h) [0..<128]"
  shows "main limit h argv = finished argv example_tree"
proof -
  have "list_all (encodable h) example_output"
    using example_output_ascii assms(6) by (auto simp: list_all_iff)
  then have e: "list_all (encodable h) (assemble (argv ! 3) example_tree)"
    unfolding assms(2) example_assemble .
  have h: "height example_tree < limit" using assms(5) by (simp add: example_height)
  show ?thesis by (rule main_presents[OF assms(1,3,4) h e])
qed

lemma reversed_finished:
  "main 2 reversed_host example_argv = finished example_argv reversed_tree"
proof -
  have o: "open_w reversed_host (example_argv ! 2)"
    by (simp add: example_argv_simps reversed_host_def)
  have p: "presents reversed_host (example_argv ! 1) reversed_tree"
    unfolding example_argv_simps by (simp add: reversed_host_def reversed_tree_def)
  have h: "height reversed_tree < 2" by (simp add: reversed_tree_def)
  have "list_all utf8_encodable reversed_output"
    using reversed_output_ascii by (rule list_all_mono) (rule utf8_encodable_ascii)
  then have e: "list_all (encodable reversed_host) (assemble (example_argv ! 3) reversed_tree)"
    unfolding example_argv_simps reversed_assemble by (simp add: reversed_host_def)
  show ?thesis by (rule main_presents[OF example_argv_simps(1) o p h e])
qed

lemma outputs_differ: "reversed_output \<noteq> example_output"
  by (simp add: reversed_output_def example_output_def)

text \<open>
  C6, as the specification words it, names the input tree and no order of enumeration:
  on a host that holds the same two entries in \<open>root\<close> and enumerates \<open>sub\<close> before
  \<open>a.txt\<close> (\<open>os.listdir\<close> returns the entries in the order of the host, and the script
  does not sort them) the run succeeds, \<open>b.bin\<close> becomes \<open>filerom_0\<close> and \<open>a.txt\<close>
  becomes \<open>filerom_1\<close>, the file \<open>/sub/b.bin\<close> is written before \<open>/a.txt\<close>, and
  the text written differs from the expected one.
\<close>

theorem example_order_counterexample:
  "main 2 reversed_host example_argv =
     \<lparr>exit_code = 0, raised = None, stdout = [],
       calls = [OpenWrite (py ''out.c''), ListDir (py ''root''),
                IsDir (py ''root/sub''), ListDir (py ''root/sub''),
                IsDir (py ''root/sub/b.bin''), OpenRead (py ''root/sub/b.bin''),
                ReadAll (py ''root/sub/b.bin''), CloseRead (py ''root/sub/b.bin''),
                IsDir (py ''root/a.txt''), OpenRead (py ''root/a.txt''),
                ReadAll (py ''root/a.txt''), CloseRead (py ''root/a.txt''),
                CloseWrite (py ''out.c'')],
       out_text = reversed_output\<rparr>
   \<and> reversed_output \<noteq> example_output
   \<and> body_ops reversed_tree =
       [MkDir (py ''/sub''), WriteFile (py ''/sub/b.bin'') 0, WriteFile (py ''/a.txt'') 1]
   \<and> set reversed_tree = set example_tree
   \<and> presents reversed_host (py ''root'') reversed_tree"
proof -
  have "main 2 reversed_host example_argv =
     \<lparr>exit_code = 0, raised = None, stdout = [],
       calls = [OpenWrite (py ''out.c''), ListDir (py ''root''),
                IsDir (py ''root/sub''), ListDir (py ''root/sub''),
                IsDir (py ''root/sub/b.bin''), OpenRead (py ''root/sub/b.bin''),
                ReadAll (py ''root/sub/b.bin''), CloseRead (py ''root/sub/b.bin''),
                IsDir (py ''root/a.txt''), OpenRead (py ''root/a.txt''),
                ReadAll (py ''root/a.txt''), CloseRead (py ''root/a.txt''),
                CloseWrite (py ''out.c'')],
       out_text = reversed_output\<rparr>"
    unfolding reversed_finished finished_def example_argv_simps reversed_assemble
    by (simp add: reversed_tree_def)
  moreover have "set reversed_tree = set example_tree"
    by (auto simp: reversed_tree_def example_tree_def)
  moreover have "presents reversed_host (py ''root'') reversed_tree"
    by (simp add: reversed_host_def reversed_tree_def)
  moreover have "body_ops reversed_tree =
       [MkDir (py ''/sub''), WriteFile (py ''/sub/b.bin'') 0, WriteFile (py ''/a.txt'') 1]"
    by (simp add: body_ops_def reversed_tree_def)
  ultimately show ?thesis using outputs_differ by blast
qed

text \<open>
  C6, with the order as a condition.  On every host whose input directory presents the
  tree of the scenario with \<open>a.txt\<close> enumerated before \<open>sub\<close>, with the entry
  function named \<open>populate\<close>, an output file that can be opened, room for one nested
  directory and an output encoding that can encode the ASCII characters, the run ends with
  status 0, makes exactly the host calls listed and writes exactly the expected file:
  two byte arrays, \<open>filerom_0\<close> with the bytes 68 69 of \<open>a.txt\<close> and length 2 and
  the empty \<open>filerom_1\<close> of \<open>b.bin\<close> with length 0; then in the function body the
  creation of \<open>/sub\<close>, the open, write and assertions for \<open>/a.txt\<close>, and those
  for \<open>/sub/b.bin\<close>.
\<close>

theorem example_run:
  assumes "length argv = 4" and "argv ! 3 = py ''populate''" and "open_w h (argv ! 2)"
    and "presents h (argv ! 1) [File (py ''a.txt'') [0x68, 0x69],
                                 Dir (py ''sub'') [File (py ''b.bin'') []]]"
    and "1 < limit"
    and "list_all (encodable h) [0..<128]"
  shows "main limit h argv =
     \<lparr>exit_code = 0, raised = None, stdout = [],
       calls = [OpenWrite (argv ! 2), ListDir (argv ! 1),
                IsDir (argv ! 1 @ py ''/a.txt''), OpenRead (argv ! 1 @ py ''/a.txt''),
                ReadAll (argv ! 1 @ py ''/a.txt''), CloseRead (argv ! 1 @ py ''/a.txt''),
                IsDir (argv ! 1 @ py ''/sub''), ListDir (argv ! 1 @ py ''/sub''),
                IsDir (argv ! 1 @ py ''/sub/b.bin''), OpenRead (argv ! 1 @ py ''/sub/b.bin''),
                ReadAll (argv ! 1 @ py ''/sub/b.bin''), CloseRead (argv ! 1 @ py ''/sub/b.bin''),
                CloseWrite (argv ! 2)],
       out_text = example_output\<rparr>"
proof -
  have p: "presents h (argv ! 1) example_tree"
    using assms(4) unfolding example_tree_def .
  have "main limit h argv = finished argv example_tree"
    by (rule example_tree_run[OF assms(1,2,3) p assms(5,6)])
  then show ?thesis
    unfolding finished_def example_walk_calls assms(2) example_assemble .
qed

theorem example_run_witness:
  "main 2 example_host example_argv =
     \<lparr>exit_code = 0, raised = None, stdout = [],
       calls = [OpenWrite (py ''out.c''), ListDir (py ''root''),
                IsDir (py ''root/a.txt''), OpenRead (py ''root/a.txt''),
                ReadAll (py ''root/a.txt''), CloseRead (py ''root/a.txt''),
                IsDir (py ''root/sub''), ListDir (py ''root/sub''),
                IsDir (py ''root/sub/b.bin''), OpenRead (py ''root/sub/b.bin''),
                ReadAll (py ''root/sub/b.bin''), CloseRead (py ''root/sub/b.bin''),
                CloseWrite (py ''out.c'')],
       out_text = example_output\<rparr>"
proof -
  have 1: "length example_argv = 4" by (simp add: example_argv_def)
  have 2: "example_argv ! 3 = py ''populate''" by (simp add: example_argv_def)
  have 3: "open_w example_host (example_argv ! 2)"
    by (simp add: example_argv_def example_host_def)
  have 4: "presents example_host (example_argv ! 1)
             [File (py ''a.txt'') [0x68, 0x69], Dir (py ''sub'') [File (py ''b.bin'') []]]"
    by (simp add: example_argv_def example_host_def)
  have 5: "list_all (encodable example_host) [0..<128]"
    by (simp add: example_host_def utf8_encodable_def list_all_iff)
  have "(1::nat) < 2" by simp
  from example_run[OF 1 2 3 4 this 5] show ?thesis
    by (simp add: example_argv_def)
qed

subsection \<open>The argument check and the blob constants\<close>

lemma length_file_items_walk: "length (file_items (walk vp es)) = count_files es"
  by (induction vp es rule: walk.induct) (simp_all add: file_items_append)

lemma header_written:
  assumes "list_all (encodable h) [0..<128]"
  shows "write_all (encodable h) header_lines [] = Inr head_text"
proof -
  from assms have "{c. c < 128} \<subseteq> {c. encodable h c}" by (auto simp: list_all_iff)
  with header_lines_chars have "list_all (encodable h) (concat header_lines)"
    by (auto simp: list_all_iff)
  from write_all_ok[OF this, of "[]"] show ?thesis by (simp add: header_spelled)
qed

lemma main_first_call:
  assumes "length argv = 4"
  shows "take 1 (calls (main limit h argv)) = [OpenWrite (argv ! 2)]"
proof (cases "open_w h (argv ! 2)")
  case False
  with assms show ?thesis by (simp add: main_def crashed_def)
next
  case True
  show ?thesis
  proof (cases "write_all (encodable h) header_lines []")
    case (Inl x)
    with assms True show ?thesis by (cases x) (simp add: main_def crashed_def)
  next
    case (Inr out)
    show ?thesis
    proof (cases "add_dir limit h (argv ! 1) [] (init_state [OpenWrite (argv ! 2)])")
      case (Inl x)
      obtain e st where x: "x = (e, st)" by (cases x)
      from add_dir_failure[OF Inl[unfolded x]]
      have "prefix [OpenWrite (argv ! 2)] (trace st)" by (simp add: init_state_def)
      then have "take 1 (trace st) = [OpenWrite (argv ! 2)]" by (auto simp: prefix_def)
      with assms True Inr Inl x show ?thesis by (simp add: main_def crashed_def)
    next
      case (Inr st)
      from add_dir_success[OF Inr] obtain es where
        "st = emitted (argv ! 1) [] es (log [ListDir (argv ! 1)] (init_state [OpenWrite (argv ! 2)]))"
        by blast
      then have t: "trace st = OpenWrite (argv ! 2) # ListDir (argv ! 1) # walk_calls (argv ! 1) es"
        by (simp add: emitted_def log_def init_state_def)
      with assms True \<open>write_all (encodable h) header_lines [] = Inr out\<close> Inr show ?thesis
        by (simp add: main_def crashed_def split: sum.splits)
    qed
  qed
qed

lemma main_header:
  assumes "length argv = 4" and "open_w h (argv ! 2)" and "list_all (encodable h) [0..<128]"
  shows "prefix head_text (out_text (main limit h argv))"
proof (cases "add_dir limit h (argv ! 1) [] (init_state [OpenWrite (argv ! 2)])")
  case (Inl x)
  with assms(1,2) header_written[OF assms(3)] show ?thesis
    by (cases x) (simp add: main_def crashed_def)
next
  case (Inr st)
  let ?ss = "[roms st] @ func_head_lines (argv ! 3) @ [dirs st, files st] @ func_tail_lines"
  show ?thesis
  proof (cases "write_all (encodable h) ?ss head_text")
    case (Inl x)
    obtain e out' where x: "x = (e, out')" by (cases x)
    from write_all_Inl[OF Inl[unfolded x]] have "prefix head_text out'" by simp
    with assms(1,2) header_written[OF assms(3)] Inr Inl x show ?thesis
      by (simp add: main_def crashed_def)
  next
    case (Inr out')
    from write_all_Inr[OF Inr] have "prefix head_text out'" by simp
    with assms(1,2) header_written[OF assms(3)] \<open>add_dir limit h (argv ! 1) [] (init_state [OpenWrite (argv ! 2)]) = Inr st\<close> Inr show ?thesis
      by (simp add: main_def)
  qed
qed

lemma main_stdout: "length argv = 4 \<Longrightarrow> stdout (main limit h argv) = []"
  by (auto simp: main_def crashed_def split: sum.splits)

text \<open>
  C4.  When the argument vector does not have exactly four elements (the script name and
  three arguments), the run prints the usage line (one line, ended by its line feed),
  exits with status 1 and makes no host call at all, so no file is opened or written.
  With four elements the run prints nothing and its first host call opens the output
  file for writing, whatever happens afterwards; the status is 0 exactly when no
  exception was raised.  If that open fails the run ends there with its exception and
  status 1.  If it succeeds and the encoding can encode the ASCII characters, the text
  written starts with the seven fixed lines.  On a host that presents a tree \<open>es\<close>
  under the input directory, with room for its nesting and an encoding that can encode
  the names, the run reaches the end of the script: status 0, the output file closed
  last, and the whole text written.
\<close>

theorem argument_count:
  "(length argv \<noteq> 4 \<longrightarrow>
      main limit h argv =
        \<lparr>exit_code = 1, raised = None,
         stdout = py ''Usage: ramfs-gen.py [indir] [outfile] [name]'' @ [10],
         calls = [], out_text = []\<rparr>)
   \<and> (length argv = 4 \<longrightarrow>
        stdout (main limit h argv) = []
        \<and> take 1 (calls (main limit h argv)) = [OpenWrite (argv ! 2)]
        \<and> (exit_code (main limit h argv) = 0 \<longleftrightarrow> raised (main limit h argv) = None)
        \<and> (\<not> open_w h (argv ! 2) \<longrightarrow>
             main limit h argv =
               \<lparr>exit_code = 1, raised = Some (OSError (argv ! 2)), stdout = [],
                calls = [OpenWrite (argv ! 2)], out_text = []\<rparr>)
        \<and> (open_w h (argv ! 2) \<and> list_all (encodable h) [0..<128] \<longrightarrow>
             prefix head_text (out_text (main limit h argv)))
        \<and> (\<forall>es. open_w h (argv ! 2) \<and> presents h (argv ! 1) es \<and> height es < limit
                \<and> writable h (argv ! 3) es \<longrightarrow>
             main limit h argv =
               \<lparr>exit_code = 0, raised = None, stdout = [],
                calls = OpenWrite (argv ! 2) # ListDir (argv ! 1) # walk_calls (argv ! 1) es
                          @ [CloseWrite (argv ! 2)],
                out_text = generated_text (argv ! 3) (walk [] es)\<rparr>))"
proof (intro conjI impI allI)
  assume "length argv \<noteq> 4"
  then show "main limit h argv =
        \<lparr>exit_code = 1, raised = None,
         stdout = py ''Usage: ramfs-gen.py [indir] [outfile] [name]'' @ [10],
         calls = [], out_text = []\<rparr>"
    by (simp add: main_def usage_def)
next
  assume "length argv = 4"
  then show "stdout (main limit h argv) = []" by (rule main_stdout)
next
  assume "length argv = 4"
  then show "take 1 (calls (main limit h argv)) = [OpenWrite (argv ! 2)]"
    by (rule main_first_call)
next
  assume "length argv = 4"
  then show "exit_code (main limit h argv) = 0 \<longleftrightarrow> raised (main limit h argv) = None"
    by (rule main_exit_code)
next
  assume "length argv = 4" and "\<not> open_w h (argv ! 2)"
  then show "main limit h argv =
               \<lparr>exit_code = 1, raised = Some (OSError (argv ! 2)), stdout = [],
                calls = [OpenWrite (argv ! 2)], out_text = []\<rparr>"
    by (simp add: main_def crashed_def)
next
  assume "length argv = 4" and "open_w h (argv ! 2) \<and> list_all (encodable h) [0..<128]"
  then show "prefix head_text (out_text (main limit h argv))"
    using main_header by blast
next
  fix es
  assume a: "length argv = 4"
    and "open_w h (argv ! 2) \<and> presents h (argv ! 1) es \<and> height es < limit
                \<and> writable h (argv ! 3) es"
  then have b: "open_w h (argv ! 2)" "presents h (argv ! 1) es" "height es < limit"
    "writable h (argv ! 3) es" by simp_all
  show "main limit h argv =
               \<lparr>exit_code = 0, raised = None, stdout = [],
                calls = OpenWrite (argv ! 2) # ListDir (argv ! 1) # walk_calls (argv ! 1) es
                          @ [CloseWrite (argv ! 2)],
                out_text = generated_text (argv ! 3) (walk [] es)\<rparr>"
    by (rule main_writable[OF a b])
qed

lemma example_writable: "writable example_host (py ''populate'') example_tree"
  by (simp add: writable_def example_host_def example_tree_def utf8_encodable_def list_all_iff)

lemma example_generated:
  "generated_text (py ''populate'') (walk [] example_tree) = example_output"
  unfolding assemble_spelled[symmetric] by (rule example_assemble)

theorem argument_count_witness:
  "main 2 example_host [py ''ramfs-gen.py'', py ''root'', py ''out.c''] =
     \<lparr>exit_code = 1, raised = None,
      stdout = py ''Usage: ramfs-gen.py [indir] [outfile] [name]'' @ [10],
      calls = [], out_text = []\<rparr>
   \<and> take 1 (calls (main 2 example_host example_argv)) = [OpenWrite (py ''out.c'')]
   \<and> exit_code (main 2 example_host example_argv) = 0
   \<and> out_text (main 2 example_host example_argv) = example_output"
proof -
  have 1: "length [py ''ramfs-gen.py'', py ''root'', py ''out.c''] \<noteq> 4" by simp
  have 2: "length example_argv = 4" by (simp add: example_argv_def)
  have o: "open_w example_host (example_argv ! 2)"
    by (simp add: example_argv_def example_host_def)
  have p: "presents example_host (example_argv ! 1) example_tree"
    unfolding example_argv_simps by (rule example_presents)
  have t: "height example_tree < 2" by (simp add: example_height)
  have w: "writable example_host (example_argv ! 3) example_tree"
    unfolding example_argv_simps by (rule example_writable)
  from o p t w
  have 3: "open_w example_host (example_argv ! 2) \<and> presents example_host (example_argv ! 1) example_tree
     \<and> height example_tree < 2 \<and> writable example_host (example_argv ! 3) example_tree"
    by blast
  from argument_count[of "[py ''ramfs-gen.py'', py ''root'', py ''out.c'']" 2 example_host] 1
  have a: "main 2 example_host [py ''ramfs-gen.py'', py ''root'', py ''out.c''] =
     \<lparr>exit_code = 1, raised = None,
      stdout = py ''Usage: ramfs-gen.py [indir] [outfile] [name]'' @ [10],
      calls = [], out_text = []\<rparr>" by blast
  from argument_count[of example_argv 2 example_host] 2
  have b: "take 1 (calls (main 2 example_host example_argv)) = [OpenWrite (example_argv ! 2)]"
    by blast
  from argument_count[of example_argv 2 example_host] 2 3
  have c: "main 2 example_host example_argv =
               \<lparr>exit_code = 0, raised = None, stdout = [],
                calls = OpenWrite (example_argv ! 2) # ListDir (example_argv ! 1)
                          # walk_calls (example_argv ! 1) example_tree
                          @ [CloseWrite (example_argv ! 2)],
                out_text = generated_text (example_argv ! 3) (walk [] example_tree)\<rparr>"
    by blast
  have d: "exit_code (main 2 example_host example_argv) = 0"
    "out_text (main 2 example_host example_argv)
       = generated_text (example_argv ! 3) (walk [] example_tree)"
    unfolding c by simp_all
  show ?thesis
    using a b d unfolding example_argv_simps example_generated by blast
qed

lemma show_nat_inj:
  assumes "show_nat m = show_nat n"
  shows "m = n"
proof -
  from assms have "read_nat (show_nat m) = read_nat (show_nat n)" by (rule arg_cong)
  then show ?thesis by (simp only: read_nat_show_nat option.inject)
qed

lemma blob_names_distinct:
  "distinct (map (\<lambda>(k, p, d). py ''filerom_'' @ show_nat k) (enumerate k0 fs))"
proof -
  let ?F = "\<lambda>k. py ''filerom_'' @ show_nat k"
  have "map (\<lambda>(k, p, d). ?F k) xs = map ?F (map fst xs)" for xs :: "(nat \<times> 'a \<times> 'b) list"
    by (induction xs) auto
  then have e: "map (\<lambda>(k, p, d). ?F k) (enumerate k0 fs) = map ?F [k0..<k0 + length fs]"
    by (simp only: map_fst_enumerate)
  have "inj ?F" by (rule injI) (auto dest: show_nat_inj)
  then have "inj_on ?F (set [k0..<k0 + length fs])" by (rule inj_on_subset) simp
  then have "distinct (map ?F [k0..<k0 + length fs])" by (simp only: distinct_map distinct_upt)
  then show ?thesis unfolding e .
qed

text \<open>
  C5.  On a host that presents the tree \<open>es\<close> under the input directory, with room for
  its nesting and an encoding that can encode the names, the run ends with status 0 and
  its output holds, between the fixed lines and the entry function, for the regular
  files in discovery order numbered \<open>k = 0, 1, 2, ...\<close>: the line
  \<open>uint8_t const filerom_k[] = {\<close>, a line with \<open>0x\<close>, two hexadecimal digits and a
  comma for each byte of the file in order, the line \<open>};\<close>, and the line
  \<open>size_t const filerom_k_len = n;\<close> where \<open>n\<close> is the number of bytes of the file.
  There are as many of them as the tree has regular files, and their names differ.
  The two digits of a byte are those of its value, in lower case, and the numbers are
  written so that a C compiler reads them back: the decimal digits of \<open>n\<close> as \<open>n\<close>,
  and the two digits of a byte as that byte.
\<close>

theorem blob_constants:
  assumes "length argv = 4" and "open_w h (argv ! 2)" and "presents h (argv ! 1) es"
    and "height es < limit" and "writable h (argv ! 3) es"
  shows "exit_code (main limit h argv) = 0
     \<and> out_text (main limit h argv) =
         head_text
         @ concat (map (\<lambda>(k, p, d). blob_text k d) (enumerate 0 (file_items (walk [] es))))
         @ func_open_text (argv ! 3)
         @ concat (map make_dir_text (dir_items (walk [] es)))
         @ concat (map (\<lambda>(k, p, d). write_file_text p k)
             (enumerate 0 (file_items (walk [] es))))
         @ func_close_text
     \<and> length (file_items (walk [] es)) = count_files es
     \<and> distinct (map (\<lambda>(k, p, d). py ''filerom_'' @ show_nat k)
          (enumerate 0 (file_items (walk [] es))))
     \<and> read_nat (show_nat n) = Some n
     \<and> fmt_02x (unat (b :: byte)) =
         [py ''0123456789abcdef'' ! (unat b div 16), py ''0123456789abcdef'' ! (unat b mod 16)]
     \<and> read_hex (py ''0x'' @ fmt_02x (unat b)) = Some (unat b)"
proof -
  note m = main_writable[OF assms]
  have 1: "exit_code (main limit h argv) = 0" unfolding m by simp
  have 2: "out_text (main limit h argv) = generated_text (argv ! 3) (walk [] es)"
    unfolding m by simp
  show ?thesis
    using 1 2 length_file_items_walk[of "[]" es]
      blob_names_distinct[of 0 "file_items (walk [] es)"]
      read_nat_show_nat[of n] fmt_02x_unat[of b] fmt_02x_digits[of b]
    by blast
qed

theorem blob_constants_witness:
  "out_text (main 2 example_host example_argv) = example_output
   \<and> enumerate 0 (file_items (walk [] example_tree)) =
         [(0, py ''/a.txt'', [0x68, 0x69]), (1, py ''/sub/b.bin'', [])]
   \<and> count_files example_tree = 2
   \<and> read_nat (show_nat 25) = Some 25
   \<and> read_hex (py ''0x'' @ fmt_02x (unat (0x69 :: byte))) = Some 105"
proof -
  have a: "length example_argv = 4" "open_w example_host (example_argv ! 2)"
    "presents example_host (example_argv ! 1) example_tree"
    by (simp_all add: example_argv_def example_host_def example_tree_def)
  have h: "height example_tree < 2" by (simp add: example_height)
  have w: "writable example_host (example_argv ! 3) example_tree"
    unfolding example_argv_simps by (rule example_writable)
  from blob_constants[OF a h w, of 25 "0x69"]
  have "out_text (main 2 example_host example_argv)
          = generated_text (example_argv ! 3) (walk [] example_tree)"
    and "read_nat (show_nat 25) = Some 25"
    and "read_hex (py ''0x'' @ fmt_02x (unat (0x69 :: byte))) = Some (unat (0x69 :: byte))"
    by blast+
  then show ?thesis
    unfolding example_argv_simps example_generated by (simp add: example_tree_def)
qed

subsection \<open>Length arguments and determinism\<close>

lemma length_escape:
  "length (escape p) = length p + length (filter (\<lambda>c. c = 92 \<or> c = 13 \<or> c = 10 \<or> c = 34) p)"
  unfolding escape_charwise by (induction p) (auto simp: escape_char_spec_def)

lemma dir_items_parent:
  "p \<in> set (dir_items (walk vp es)) \<Longrightarrow>
   \<exists>parent name. p = parent @ py ''/'' @ name \<and> name \<in> set (entry_names es)
      \<and> (parent = vp \<or> parent \<in> set (dir_items (walk vp es)))"
proof (induction vp es rule: walk.induct)
  case (1 vp)
  then show ?case by simp
next
  case (2 vp n d es)
  then show ?case by auto
next
  case (3 vp n cs es)
  from "3.prems" consider "p = vp @ py ''/'' @ n"
    | "p \<in> set (dir_items (walk (vp @ py ''/'' @ n) cs))"
    | "p \<in> set (dir_items (walk vp es))"
    by (auto simp: dir_items_append)
  then show ?case
  proof cases
    case 1
    then show ?thesis by (intro exI[of _ vp] exI[of _ n]) simp
  next
    case 2
    from "3.IH"(1)[OF 2] obtain parent name where "p = parent @ py ''/'' @ name"
      "name \<in> set (entry_names cs)"
      "parent = vp @ py ''/'' @ n \<or> parent \<in> set (dir_items (walk (vp @ py ''/'' @ n) cs))"
      by blast
    then show ?thesis
      by (intro exI[of _ parent] exI[of _ name]) (auto simp: dir_items_append)
  next
    case 3
    from "3.IH"(2)[OF 3] obtain parent name where "p = parent @ py ''/'' @ name"
      "name \<in> set (entry_names es)"
      "parent = vp \<or> parent \<in> set (dir_items (walk vp es))"
      by blast
    then show ?thesis
      by (intro exI[of _ parent] exI[of _ name]) (auto simp: dir_items_append)
  qed
qed

text \<open>
  C9.  On a host that presents the tree \<open>es\<close>, with room for its nesting and an encoding
  that can encode the names, the run ends with status 0 and in its output each
  \<open>fs_make_file\<close> line carries, between double quotes, the escaped virtual path of a
  discovered directory and after it the decimal digits of the length of the unescaped
  path, and each \<open>fs_open\<close> line carries the escaped virtual path of a discovered file
  and the decimal digits of the length of the unescaped path.  A directory's path is
  its parent's path (the empty root path or another discovered directory), a slash and
  the entry name, so the number is the parent's length plus 1 plus the name's length.
  The digits read back as the number, and the literal reads back as the unescaped path,
  so the number is the count of characters of the string the literal denotes; it is not
  the length of the literal, which is longer by one for each backslash, carriage
  return, line feed and double quote of the path.
\<close>

theorem length_arguments:
  assumes "length argv = 4" and "open_w h (argv ! 2)" and "presents h (argv ! 1) es"
    and "height es < limit" and "writable h (argv ! 3) es"
  shows "exit_code (main limit h argv) = 0
     \<and> out_text (main limit h argv) =
         head_text
         @ concat (map (\<lambda>(k, p, d). blob_text k d) (enumerate 0 (file_items (walk [] es))))
         @ func_open_text (argv ! 3)
         @ concat (map (\<lambda>p.
               py ''    assert_dev_keep(fs_make_file(FILE_NONE, '' @ [34] @ escape p @ [34]
               @ py '', '' @ show_nat (length p)
               @ py '', (make_file_spec_t){.type = NODE_TYPE_DIRECTORY}) >= 0);'' @ [10])
             (dir_items (walk [] es)))
         @ concat (map (\<lambda>(k, p, d).
               py ''    fd = fs_open(FILE_NONE, '' @ [34] @ escape p @ [34] @ py '', ''
               @ show_nat (length p) @ py '', FS_O_CREATE | FS_O_WRITE_ONLY).file;'' @ [10]
               @ py ''    assert_always(fd.metadata);'' @ [10]
               @ py ''    len = fs_write(fd, filerom_'' @ show_nat k @ py '', filerom_''
               @ show_nat k @ py ''_len);'' @ [10]
               @ py ''    assert_always(len == filerom_'' @ show_nat k @ py ''_len);'' @ [10]
               @ py ''    fs_file_drop(fd);'' @ [10])
             (enumerate 0 (file_items (walk [] es))))
         @ func_close_text
     \<and> (\<forall>p \<in> set (dir_items (walk [] es)). \<exists>parent name.
           p = parent @ py ''/'' @ name \<and> length p = length parent + 1 + length name
           \<and> name \<in> set (entry_names es)
           \<and> (parent = [] \<or> parent \<in> set (dir_items (walk [] es))))
     \<and> read_nat (show_nat n) = Some n
     \<and> c_unescape (escape q) = Some q
     \<and> length (escape q) =
         length q + length (filter (\<lambda>c. c = 92 \<or> c = 13 \<or> c = 10 \<or> c = 34) q)"
proof -
  note m = main_writable[OF assms]
  have 1: "exit_code (main limit h argv) = 0" unfolding m by simp
  have 2: "out_text (main limit h argv) = generated_text (argv ! 3) (walk [] es)"
    unfolding m by simp
  have d: "\<forall>p \<in> set (dir_items (walk [] es)). \<exists>parent name.
           p = parent @ py ''/'' @ name \<and> length p = length parent + 1 + length name
           \<and> name \<in> set (entry_names es)
           \<and> (parent = [] \<or> parent \<in> set (dir_items (walk [] es)))"
  proof
    fix p assume "p \<in> set (dir_items (walk [] es))"
    from dir_items_parent[OF this] obtain parent name where
      "p = parent @ py ''/'' @ name" "name \<in> set (entry_names es)"
      "parent = [] \<or> parent \<in> set (dir_items (walk [] es))"
      by blast
    then show "\<exists>parent name.
           p = parent @ py ''/'' @ name \<and> length p = length parent + 1 + length name
           \<and> name \<in> set (entry_names es)
           \<and> (parent = [] \<or> parent \<in> set (dir_items (walk [] es)))"
      by (intro exI[of _ parent] exI[of _ name]) simp
  qed
  show ?thesis
    using 1 2 d read_nat_show_nat[of n] c_unescape_escape[of q] length_escape[of q]
    by blast
qed

theorem length_arguments_witness:
  "out_text (main 2 example_host example_argv) = example_output
   \<and> dir_items (walk [] example_tree) = [py ''/sub'']
   \<and> length (py ''/sub'') = 4
   \<and> read_nat (show_nat 10) = Some 10
   \<and> c_unescape (escape [47, 97, 34, 98]) = Some [47, 97, 34, 98]
   \<and> length (escape [47, 97, 34, 98]) = 5"
proof -
  have a: "open_w example_host (example_argv ! 2)"
    "presents example_host (example_argv ! 1) example_tree"
    by (simp_all add: example_argv_def example_host_def example_tree_def)
  have h: "height example_tree < 2" by (simp add: example_height)
  have w: "writable example_host (example_argv ! 3) example_tree"
    unfolding example_argv_simps by (rule example_writable)
  from length_arguments[OF example_argv_simps(1) a h w, of 10 "[47, 97, 34, 98]"]
  have "out_text (main 2 example_host example_argv)
          = generated_text (example_argv ! 3) (walk [] example_tree)"
    and "read_nat (show_nat 10) = Some 10"
    and "c_unescape (escape [47, 97, 34, 98]) = Some [47, 97, 34, 98]"
    and "length (escape [47, 97, 34, 98]) =
         length [47, 97, 34, 98 :: nat]
         + length (filter (\<lambda>c. c = 92 \<or> c = 13 \<or> c = 10 \<or> c = 34) [47, 97, 34, 98 :: nat])"
    by blast+
  then show ?thesis
    unfolding example_argv_simps example_generated by (simp add: example_tree_def)
qed

lemma presents_each_unique:
  "presents_each h p es \<Longrightarrow> presents_each h p es' \<Longrightarrow> map name_of es = map name_of es'
   \<Longrightarrow> es = es'"
proof (induction es arbitrary: es' p rule: height.induct)
  case 1
  then show ?case by simp
next
  case (2 n d es)
  then obtain x es'' where e: "es' = x # es''" by (cases es') auto
  with 2 show ?case by (cases x) auto
next
  case (3 n cs es)
  then obtain x es'' where e: "es' = x # es''" by (cases es') auto
  with 3 show ?case by (cases x) auto
qed

lemma presents_unique: "presents h p es \<Longrightarrow> presents h p es' \<Longrightarrow> es = es'"
  using presents_each_unique[of h p es es'] by simp

text \<open>
  C8.  Two runs with the same arguments and the same recursion limit, on hosts \<open>h\<close> and
  \<open>h'\<close> that present the same tree under the input directory (same entries in the same
  enumeration order, same bytes), agree on whether the output file can be opened and
  encode the same characters, are the same run: the same status, the same exception if
  there is one, the same host calls and the same text written, hence the same bytes in
  the output file whatever the encoding \<open>enc\<close> of a character is, whether the run
  reaches the end of the script or not.  When there is room for the nesting of the tree and
  the encoding can encode the names, that text is the whole generated file, whose byte
  arrays are those of the files of the tree in discovery order.  A host presents at
  most one tree under a path (\<open>presents_unique\<close>).
\<close>

theorem deterministic_output:
  assumes "presents h (argv ! 1) es" and "presents h' (argv ! 1) es"
    and "open_w h (argv ! 2) = open_w h' (argv ! 2)" and "encodable h = encodable h'"
  shows "main limit h' argv = main limit h argv
     \<and> encode enc (out_text (main limit h' argv)) = encode enc (out_text (main limit h argv))
     \<and> (length argv = 4 \<and> open_w h (argv ! 2) \<and> height es < limit
          \<and> writable h (argv ! 3) es \<longrightarrow>
        exit_code (main limit h' argv) = 0
        \<and> out_text (main limit h' argv) =
            head_text
            @ concat (map (\<lambda>(k, p, d). blob_text k d) (enumerate 0 (file_items (walk [] es))))
            @ func_open_text (argv ! 3)
            @ concat (map make_dir_text (dir_items (walk [] es)))
            @ concat (map (\<lambda>(k, p, d). write_file_text p k)
                (enumerate 0 (file_items (walk [] es))))
            @ func_close_text)"
proof -
  have s: "main limit h' argv = main limit h argv"
    by (rule main_same[OF assms(2,1) assms(3)[symmetric] assms(4)[symmetric]])
  show ?thesis
  proof (intro conjI impI)
    show "main limit h' argv = main limit h argv" by (rule s)
  next
    show "encode enc (out_text (main limit h' argv)) = encode enc (out_text (main limit h argv))"
      unfolding s ..
  next
    assume "length argv = 4 \<and> open_w h (argv ! 2) \<and> height es < limit
          \<and> writable h (argv ! 3) es"
    then have b: "length argv = 4" "open_w h (argv ! 2)" "height es < limit"
      "writable h (argv ! 3) es" by simp_all
    note m = main_writable[OF b(1,2) assms(1) b(3,4)]
    show "exit_code (main limit h' argv) = 0" unfolding s m by simp
    show "out_text (main limit h' argv) = generated_text (argv ! 3) (walk [] es)"
      unfolding s m by simp
  qed
qed

theorem deterministic_output_witness:
  "main 2 later_host example_argv = main 2 example_host example_argv
   \<and> out_text (main 2 later_host example_argv) = example_output
   \<and> later_host \<noteq> example_host"
proof -
  have p: "presents example_host (example_argv ! 1) example_tree"
    "presents later_host (example_argv ! 1) example_tree"
    by (simp_all add: example_argv_def example_host_def later_host_def example_tree_def)
  have o: "open_w example_host (example_argv ! 2) = open_w later_host (example_argv ! 2)"
    by (simp add: later_host_def)
  have e: "encodable example_host = encodable later_host"
    by (simp add: later_host_def)
  have c: "length example_argv = 4 \<and> open_w example_host (example_argv ! 2)
      \<and> height example_tree < 2 \<and> writable example_host (example_argv ! 3) example_tree"
    unfolding example_argv_simps
    using example_writable by (simp add: example_height example_host_def)
  from deterministic_output[OF p o e, where limit = 2 and enc = utf8] c
  have "main 2 later_host example_argv = main 2 example_host example_argv"
    and "out_text (main 2 later_host example_argv)
           = generated_text (example_argv ! 3) (walk [] example_tree)"
    by blast+
  moreover have "later_host \<noteq> example_host"
  proof
    assume "later_host = example_host"
    then have "read_rb later_host (py ''notes.txt'') = read_rb example_host (py ''notes.txt'')"
      by simp
    then show False by (simp add: later_host_def example_host_def)
  qed
  ultimately show ?thesis unfolding example_argv_simps example_generated by blast
qed

subsection \<open>The order of the operations\<close>

lemma append_eq_split:
  "xs @ ys = pre @ x # post \<Longrightarrow>
   (\<exists>us. xs = pre @ x # us) \<or> (\<exists>us. pre = xs @ us \<and> ys = us @ x # post)"
proof (induction xs arbitrary: pre)
  case Nil
  then show ?case by simp
next
  case (Cons y xs)
  show ?case
  proof (cases pre)
    case Nil
    with Cons.prems show ?thesis by simp
  next
    case (Cons z pre')
    with Cons.prems have "xs @ ys = pre' @ x # post" "y = z" by auto
    from Cons.IH[OF this(1)] Cons \<open>y = z\<close> show ?thesis by auto
  qed
qed

lemma slash_prefix_short:
  assumes "47 \<notin> set n" and "prefix (a @ [47]) (vp @ 47 # n)"
  shows "length a \<le> length vp"
proof -
  from assms(2) obtain zs where "vp @ 47 # n = a @ 47 # zs"
    by (auto simp: prefix_def)
  then consider us where "vp = a @ us" | us where "vp @ us = a" "47 # n = us @ 47 # zs"
    by (auto simp: append_eq_append_conv2)
  then show ?thesis
  proof cases
    case 1
    then show ?thesis by simp
  next
    case 2
    with assms(1) have "us = []" by (cases us) auto
    with 2 show ?thesis by simp
  qed
qed

lemma walk_path_prefix:
  "x \<in> set (walk vp es) \<Longrightarrow> prefix (vp @ [47]) (item_path x)"
proof (induction vp es rule: walk.induct)
  case (3 vp n cs es)
  from "3.prems" consider "x = DirItem (vp @ py ''/'' @ n)"
    | "x \<in> set (walk (vp @ py ''/'' @ n) cs)" | "x \<in> set (walk vp es)" by auto
  then show ?case
  proof cases
    case 2
    from "3.IH"(1)[OF 2] have "prefix ((vp @ py ''/'' @ n) @ [47]) (item_path x)" .
    then show ?thesis by (auto simp: prefix_def)
  qed (use "3.IH"(2) in auto)
qed auto

lemma walk_ancestors_before:
  "slash_free es \<Longrightarrow> walk vp es = pre @ x # post \<Longrightarrow> prefix (a @ [47]) (item_path x)
   \<Longrightarrow> length vp < length a \<Longrightarrow> DirItem a \<in> set pre"
proof (induction vp es arbitrary: pre post rule: walk.induct)
  case (1 vp)
  then show ?case by simp
next
  case (2 vp n d es)
  show ?case
  proof (cases pre)
    case Nil
    with "2.prems" have "prefix (a @ [47]) (vp @ 47 # n)" "47 \<notin> set n" by auto
    from slash_prefix_short[OF this(2,1)] "2.prems"(4) show ?thesis by simp
  next
    case (Cons y pre')
    with "2.prems" have "walk vp es = pre' @ x # post" "slash_free es" by auto
    from "2.IH"[OF this(2,1) "2.prems"(3,4)] Cons show ?thesis by simp
  qed
next
  case (3 vp n cs es)
  let ?c = "vp @ py ''/'' @ n"
  from "3.prems"(1) have sf: "47 \<notin> set n" "slash_free cs" "slash_free es" by auto
  show ?case
  proof (cases pre)
    case Nil
    with "3.prems" have "prefix (a @ [47]) (vp @ 47 # n)" by auto
    from slash_prefix_short[OF sf(1) this] "3.prems"(4) show ?thesis by simp
  next
    case (Cons y pre')
    with "3.prems"(2) have y: "y = DirItem ?c"
      and w: "walk ?c cs @ walk vp es = pre' @ x # post" by auto
    from append_eq_split[OF w] consider us where "walk ?c cs = pre' @ x # us"
      | us where "pre' = walk ?c cs @ us" "walk vp es = us @ x # post"
      by blast
    then show ?thesis
    proof cases
      case 1
      then have "x \<in> set (walk ?c cs)" by simp
      from walk_path_prefix[OF this] have pc: "prefix (?c @ [47]) (item_path x)" .
      show ?thesis
      proof (cases "length ?c < length a")
        case True
        from "3.IH"(1)[OF sf(2) 1 "3.prems"(3) True] Cons show ?thesis by simp
      next
        case False
        then have le: "length (a @ [47]) \<le> length (?c @ [47])" by simp
        from prefix_length_prefix[OF "3.prems"(3) pc le]
        have pa: "prefix (a @ [47]) (?c @ [47])" .
        show ?thesis
        proof (cases "length a = length ?c")
          case True
          from pa obtain zs where z: "?c @ [47] = (a @ [47]) @ zs"
            unfolding prefix_def by blast
          then have "length (?c @ [47]) = length ((a @ [47]) @ zs)" by (rule arg_cong)
          with True have "zs = []" by simp
          with z have "a = ?c" by simp
          with y Cons show ?thesis by simp
        next
          case False
          with \<open>\<not> length ?c < length a\<close> have "length (a @ [47]) \<le> length ?c" by simp
          with pa have "prefix (a @ [47]) ?c"
            by (metis prefix_length_prefix prefix_snoc prefix_order.order_refl)
          then have "prefix (a @ [47]) (vp @ 47 # n)" by simp
          from slash_prefix_short[OF sf(1) this] "3.prems"(4) show ?thesis by simp
        qed
      qed
    next
      case 2
      from "3.IH"(2)[OF sf(3) 2(2) "3.prems"(3,4)] 2(1) Cons show ?thesis by simp
    qed
  qed
qed

lemma dir_items_filter: "map DirItem (dir_items xs) = filter is_dir_item xs"
  by (induction xs rule: dir_items.induct) simp_all

lemma file_items_filter:
  "map (\<lambda>(p, d). FileItem p d) (file_items xs) = filter (\<lambda>x. \<not> is_dir_item x) xs"
  by (induction xs rule: file_items.induct) simp_all

lemma dir_items_split:
  "dir_items xs = ps @ p # qs \<Longrightarrow>
   \<exists>us vs. xs = us @ DirItem p # vs \<and> dir_items us = ps"
proof (induction xs arbitrary: ps rule: dir_items.induct)
  case 1
  then show ?case by simp
next
  case (2 q xs)
  show ?case
  proof (cases ps)
    case Nil
    with "2.prems" show ?thesis by (intro exI[of _ "[]"] exI[of _ xs]) simp
  next
    case (Cons p' ps')
    with "2.prems" have "dir_items xs = ps' @ p # qs" "p' = q" by auto
    from "2.IH"[OF this(1)] obtain us vs where "xs = us @ DirItem p # vs" "dir_items us = ps'"
      by blast
    with Cons \<open>p' = q\<close> show ?thesis
      by (intro exI[of _ "DirItem q # us"] exI[of _ vs]) simp
  qed
next
  case (3 q d xs)
  from "3.IH"[OF] "3.prems" obtain us vs where "xs = us @ DirItem p # vs" "dir_items us = ps"
    by auto
  then show ?case by (intro exI[of _ "FileItem q d # us"] exI[of _ vs]) simp
qed

lemma dir_items_set: "p \<in> set (dir_items xs) \<longleftrightarrow> DirItem p \<in> set xs"
  by (induction xs rule: dir_items.induct) auto

lemma file_items_set: "(p, d) \<in> set (file_items xs) \<longleftrightarrow> FileItem p d \<in> set xs"
  by (induction xs rule: file_items.induct) auto

lemma body_ancestors_before:
  assumes "slash_free es" and "body_ops es = pre @ x # post" and "ancestor a (op_path x)"
  shows "MkDir a \<in> set pre"
proof -
  let ?W = "walk [] es"
  let ?D = "map MkDir (dir_items ?W)"
  let ?F = "map (\<lambda>(k, p, d). WriteFile p k) (enumerate 0 (file_items ?W))"
  from assms(3) have a: "a \<noteq> []" "prefix (a @ [47]) (op_path x)"
    by (simp_all add: ancestor_def)
  from assms(2) have "?D @ ?F = pre @ x # post" by (simp add: body_ops_def)
  from append_eq_split[OF this] consider us where "?D = pre @ x # us"
    | us where "pre = ?D @ us" "?F = us @ x # post"
    by blast
  then show ?thesis
  proof cases
    case 1
    then obtain ps p qs where d: "dir_items ?W = ps @ p # qs" "pre = map MkDir ps" "x = MkDir p"
      by (auto simp: map_eq_append_conv map_eq_Cons_conv)
    from dir_items_split[OF d(1)] obtain us' vs where w: "?W = us' @ DirItem p # vs"
      "dir_items us' = ps" by blast
    from a d(3) have "prefix (a @ [47]) (item_path (DirItem p))" by simp
    from walk_ancestors_before[OF assms(1) w(1) this] a(1)
    have "DirItem a \<in> set us'" by simp
    with w(2) have "a \<in> set ps" using dir_items_set[of a us'] by simp
    with d(2) show ?thesis by simp
  next
    case 2
    then have "x \<in> set ?F" by simp
    then obtain k p d where x: "x = WriteFile p k" "(p, d) \<in> set (file_items ?W)"
      by (auto simp: enumerate_eq_zip dest: set_zip_rightD)
    then have "FileItem p d \<in> set ?W" by (simp add: file_items_set)
    then obtain us' vs where w: "?W = us' @ FileItem p d # vs" by (auto simp: in_set_conv_decomp)
    from a x(1) have "prefix (a @ [47]) (item_path (FileItem p d))" by simp
    from walk_ancestors_before[OF assms(1) w this] a(1)
    have "DirItem a \<in> set us'" by simp
    with w have "DirItem a \<in> set ?W" by simp
    then have "a \<in> set (dir_items ?W)" by (simp add: dir_items_set)
    with 2(1) show ?thesis by simp
  qed
qed

lemma body_ops_text:
  "concat (map (\<lambda>x. case x of MkDir p \<Rightarrow> make_dir_text p
                              | WriteFile p k \<Rightarrow> write_file_text p k) (body_ops es)) =
     concat (map make_dir_text (dir_items (walk [] es)))
     @ concat (map (\<lambda>(k, p, d). write_file_text p k) (enumerate 0 (file_items (walk [] es))))"
proof -
  let ?r = "\<lambda>x. case x of MkDir p \<Rightarrow> make_dir_text p | WriteFile p k \<Rightarrow> write_file_text p k"
  have 1: "map ?r (map MkDir ps) = map make_dir_text ps" for ps
    by (induction ps) simp_all
  have 2: "map ?r (map (\<lambda>(k, p, d). WriteFile p k) xs) = map (\<lambda>(k, p, d). write_file_text p k) xs"
    for xs :: "(nat \<times> pystr \<times> byte list) list"
    by (induction xs) auto
  show ?thesis unfolding body_ops_def map_append concat_append 1 2 ..
qed

text \<open>
  C2.  On a host that presents the tree \<open>es\<close>, whose entry names contain no slash, with
  room for its nesting and an encoding that can encode the names, the run ends with
  status 0, and in its output the body of the entry function, between the three opening
  lines and the three closing lines, is the text of the operations \<open>body_ops es\<close> one
  after the other: an \<open>fs_make_file\<close> line for the creation of a directory, the five
  lines from \<open>fs_open\<close> to \<open>fs_file_drop\<close> for the writing of a file.  These are first
  one directory creation per discovered directory, then one file write per discovered
  file.  Either group is the walk's discovery sequence restricted to directories, or
  to files, so it is in discovery order.  Whenever an operation on a path \<open>p\<close> stands
  in the body and \<open>a\<close> is an ancestor directory of \<open>p\<close> other than the root, the
  creation of \<open>a\<close> stands before it.
\<close>

theorem body_order:
  assumes "length argv = 4" and "open_w h (argv ! 2)" and "presents h (argv ! 1) es"
    and "height es < limit" and "writable h (argv ! 3) es" and "slash_free es"
  shows "exit_code (main limit h argv) = 0
     \<and> out_text (main limit h argv) =
         head_text
         @ concat (map (\<lambda>(k, p, d). blob_text k d) (enumerate 0 (file_items (walk [] es))))
         @ func_open_text (argv ! 3)
         @ concat (map (\<lambda>x. case x of
               MkDir p \<Rightarrow>
                 py ''    assert_dev_keep(fs_make_file(FILE_NONE, '' @ [34] @ escape p @ [34]
                 @ py '', '' @ show_nat (length p)
                 @ py '', (make_file_spec_t){.type = NODE_TYPE_DIRECTORY}) >= 0);'' @ [10]
             | WriteFile p k \<Rightarrow>
                 py ''    fd = fs_open(FILE_NONE, '' @ [34] @ escape p @ [34] @ py '', ''
                 @ show_nat (length p) @ py '', FS_O_CREATE | FS_O_WRITE_ONLY).file;'' @ [10]
                 @ py ''    assert_always(fd.metadata);'' @ [10]
                 @ py ''    len = fs_write(fd, filerom_'' @ show_nat k @ py '', filerom_''
                 @ show_nat k @ py ''_len);'' @ [10]
                 @ py ''    assert_always(len == filerom_'' @ show_nat k @ py ''_len);'' @ [10]
                 @ py ''    fs_file_drop(fd);'' @ [10])
             (body_ops es))
         @ func_close_text
     \<and> body_ops es =
         map MkDir (dir_items (walk [] es))
         @ map (\<lambda>(k, p, d). WriteFile p k) (enumerate 0 (file_items (walk [] es)))
     \<and> map DirItem (dir_items (walk [] es)) = filter is_dir_item (walk [] es)
     \<and> map (\<lambda>(p, d). FileItem p d) (file_items (walk [] es))
         = filter (\<lambda>x. \<not> is_dir_item x) (walk [] es)
     \<and> (\<forall>pre x post a. body_ops es = pre @ x # post \<longrightarrow> ancestor a (op_path x)
           \<longrightarrow> MkDir a \<in> set pre)
     \<and> c_unescape (escape q) = Some q"
proof -
  note m = main_writable[OF assms(1-5)]
  have 1: "exit_code (main limit h argv) = 0" unfolding m by simp
  have "out_text (main limit h argv) = generated_text (argv ! 3) (walk [] es)"
    unfolding m by simp
  then have 2: "out_text (main limit h argv) =
         head_text
         @ concat (map (\<lambda>(k, p, d). blob_text k d) (enumerate 0 (file_items (walk [] es))))
         @ func_open_text (argv ! 3)
         @ concat (map (\<lambda>x. case x of MkDir p \<Rightarrow> make_dir_text p
                              | WriteFile p k \<Rightarrow> write_file_text p k) (body_ops es))
         @ func_close_text"
    unfolding body_ops_text by simp
  have 3: "\<forall>pre x post a. body_ops es = pre @ x # post \<longrightarrow> ancestor a (op_path x)
           \<longrightarrow> MkDir a \<in> set pre"
    using body_ancestors_before[OF assms(6)] by blast
  have 4: "body_ops es =
         map MkDir (dir_items (walk [] es))
         @ map (\<lambda>(k, p, d). WriteFile p k) (enumerate 0 (file_items (walk [] es)))"
    by (rule body_ops_def)
  show ?thesis
    using 1 2 3 4 dir_items_filter[of "walk [] es"] file_items_filter[of "walk [] es"]
      c_unescape_escape[of q]
    by blast
qed

theorem body_order_witness:
  "out_text (main 2 example_host example_argv) = example_output
   \<and> body_ops example_tree =
       [MkDir (py ''/sub''), WriteFile (py ''/a.txt'') 0, WriteFile (py ''/sub/b.bin'') 1]
   \<and> ancestor (py ''/sub'') (py ''/sub/b.bin'')"
proof -
  have a: "open_w example_host (example_argv ! 2)"
    "presents example_host (example_argv ! 1) example_tree"
    by (simp_all add: example_argv_def example_host_def example_tree_def)
  have h: "height example_tree < 2" by (simp add: example_height)
  have w: "writable example_host (example_argv ! 3) example_tree"
    unfolding example_argv_simps by (rule example_writable)
  have s: "slash_free example_tree" by (simp add: example_tree_def)
  note b = body_order[OF example_argv_simps(1) a h w s, where q = "[]"]
  have "out_text (main 2 example_host example_argv) =
         head_text
         @ concat (map (\<lambda>(k, p, d). blob_text k d)
             (enumerate 0 (file_items (walk [] example_tree))))
         @ func_open_text (example_argv ! 3)
         @ concat (map (\<lambda>x. case x of MkDir p \<Rightarrow> make_dir_text p
                              | WriteFile p k \<Rightarrow> write_file_text p k) (body_ops example_tree))
         @ func_close_text"
    by (rule b[THEN conjunct2, THEN conjunct1])
  then have "out_text (main 2 example_host example_argv)
      = generated_text (example_argv ! 3) (walk [] example_tree)"
    unfolding body_ops_text by simp
  then have "out_text (main 2 example_host example_argv) = example_output"
    unfolding example_argv_simps example_generated .
  then show ?thesis
    by (simp add: body_ops_def example_tree_def ancestor_def)
qed

subsection \<open>Classification of the entries\<close>

lemma length_dir_items_walk: "length (dir_items (walk vp es)) = count_dirs es"
  by (induction vp es rule: walk.induct) (simp_all add: dir_items_append)

lemma length_walk: "length (walk vp es) = count_dirs es + count_files es"
  by (induction vp es rule: walk.induct) simp_all

lemma length_visited: "length (visited path es) = length (walk vp es)"
  by (induction vp es arbitrary: path rule: walk.induct) simp_all

lemma treated_mono: "treated h tr qe x \<Longrightarrow> set tr \<subseteq> set tr' \<Longrightarrow> treated h tr' qe x"
  by (cases "(h, tr, qe, x)" rule: treated.cases) auto

lemma list_all2_treated_mono:
  "list_all2 (treated h tr) qs xs \<Longrightarrow> set tr \<subseteq> set tr' \<Longrightarrow> list_all2 (treated h tr') qs xs"
  by (erule list_all2_mono) (rule treated_mono)

lemma presents_each_treated:
  "presents_each h path es \<Longrightarrow>
   list_all2 (treated h (walk_calls path es)) (visited path es) (walk vp es)"
proof (induction vp es arbitrary: path rule: walk.induct)
  case (1 vp)
  then show ?case by simp
next
  case (2 vp n d es)
  then have "list_all2 (treated h (walk_calls path es)) (visited path es) (walk vp es)"
    by simp
  then have "list_all2 (treated h (walk_calls path (File n d # es))) (visited path es) (walk vp es)"
    by (rule list_all2_treated_mono) auto
  with "2.prems" show ?case by simp
next
  case (3 vp n cs es)
  let ?q = "path @ py ''/'' @ n"
  from "3.prems" have p: "presents_each h ?q cs" "presents_each h path es"
    "isdir h ?q" "listdir h ?q = Some (map name_of cs)" by auto
  have "list_all2 (treated h (walk_calls path (Dir n cs # es))) (visited ?q cs)
          (walk (vp @ py ''/'' @ n) cs)"
    by (rule list_all2_treated_mono[OF "3.IH"(1)[OF p(1)]]) auto
  moreover have "list_all2 (treated h (walk_calls path (Dir n cs # es))) (visited path es)
          (walk vp es)"
    by (rule list_all2_treated_mono[OF "3.IH"(2)[OF p(2)]]) auto
  ultimately show ?case using p(3,4) by (simp add: list_all2_appendI)
qed

lemma presents_each_mem:
  "presents_each h path es \<Longrightarrow> e \<in> set es \<Longrightarrow>
   (case e of
      File n d \<Rightarrow> \<not> isdir h (path @ py ''/'' @ n) \<and> read_rb h (path @ py ''/'' @ n) = Some d
    | Dir n cs \<Rightarrow> isdir h (path @ py ''/'' @ n) \<and> presents h (path @ py ''/'' @ n) cs)"
  by (induction es rule: height.induct) auto

lemma unreadable_entry_aborts:
  assumes "listdir h (argv ! 1) = Some names" and "n \<in> set names"
    and "\<not> isdir h (argv ! 1 @ py ''/'' @ n)" and "read_rb h (argv ! 1 @ py ''/'' @ n) = None"
  shows "exit_code (main limit h argv) \<noteq> 0"
proof
  assume e: "exit_code (main limit h argv) = 0"
  then have l: "length argv = 4" by (auto simp: main_def split: if_splits)
  with e have "raised (main limit h argv) = None" by (simp add: main_exit_code)
  from main_success[OF l this] obtain es where "presents h (argv ! 1) es" by blast
  with assms(1) have n: "map name_of es = names" and pe: "presents_each h (argv ! 1) es"
    by simp_all
  from n assms(2) obtain e where e: "e \<in> set es" "name_of e = n" by auto
  from presents_each_mem[OF pe e(1)] e(2) assms(3,4) show False
    by (cases e) auto
qed

text \<open>
  C10.  With four arguments and an output file that can be opened, on a host that
  presents a tree \<open>es\<close> under the input directory (an entry of the tree is a directory
  exactly when \<open>os.path.isdir\<close> is true on its path, whatever it is on the disk, and
  any other entry is a file with the bytes that reading it returns), with room for the
  nesting and an encoding that can encode the names, the run reaches the end of the
  script with status 0.  In every run with status 0 there is such a tree, and the run is
  the run on it: every name that \<open>os.listdir\<close> returned, at every level, is an entry of
  the tree, and the entries correspond one to one, in order, to the discovered items:
  an entry on which \<open>os.path.isdir\<close> is true was listed and gave a directory item (its
  entries are in the tree in turn) and one \<open>fs_make_file\<close> line, and an entry on which
  it is false was opened, read whole and closed, and gave a file item with exactly the
  bytes read, hence one array with these bytes and one group of \<open>fs_open\<close> lines.
  Nothing else about an entry is consulted (the host has no other attribute), and when
  an entry of the input directory is not a directory and cannot be read, the run does
  not end with status 0: it is not skipped.
\<close>

theorem classification_by_isdir:
  "(length argv = 4 \<and> open_w h (argv ! 2) \<and> presents h (argv ! 1) es \<and> height es < limit
      \<and> writable h (argv ! 3) es \<longrightarrow> exit_code (main limit h argv) = 0)
   \<and> (exit_code (main limit h argv) = 0 \<longrightarrow>
        (\<exists>es. presents h (argv ! 1) es
           \<and> listdir h (argv ! 1) = Some (map name_of es)
           \<and> main limit h argv =
               \<lparr>exit_code = 0, raised = None, stdout = [],
                calls = OpenWrite (argv ! 2) # ListDir (argv ! 1) # walk_calls (argv ! 1) es
                          @ [CloseWrite (argv ! 2)],
                out_text = generated_text (argv ! 3) (walk [] es)\<rparr>
           \<and> list_all2 (treated h (calls (main limit h argv))) (visited (argv ! 1) es)
                (walk [] es)
           \<and> length (walk [] es) = count_dirs es + count_files es
           \<and> length (dir_items (walk [] es)) = count_dirs es
           \<and> length (file_items (walk [] es)) = count_files es))
   \<and> (\<forall>names n. listdir h (argv ! 1) = Some names \<and> n \<in> set names
         \<and> \<not> isdir h (argv ! 1 @ py ''/'' @ n) \<and> read_rb h (argv ! 1 @ py ''/'' @ n) = None
         \<longrightarrow> exit_code (main limit h argv) \<noteq> 0)"
proof (intro conjI impI allI)
  assume "length argv = 4 \<and> open_w h (argv ! 2) \<and> presents h (argv ! 1) es
      \<and> height es < limit \<and> writable h (argv ! 3) es"
  then have b: "length argv = 4" "open_w h (argv ! 2)" "presents h (argv ! 1) es"
    "height es < limit" "writable h (argv ! 3) es" by simp_all
  show "exit_code (main limit h argv) = 0"
    unfolding main_writable[OF b] by simp
next
  assume e: "exit_code (main limit h argv) = 0"
  then have l: "length argv = 4" by (auto simp: main_def split: if_splits)
  with e have "raised (main limit h argv) = None" by (simp add: main_exit_code)
  from main_success[OF l this] obtain es where es: "presents h (argv ! 1) es"
    and m: "main limit h argv = finished argv es" by blast
  from es have pe: "presents_each h (argv ! 1) es"
    and ld: "listdir h (argv ! 1) = Some (map name_of es)" by simp_all
  have t: "list_all2 (treated h (calls (main limit h argv))) (visited (argv ! 1) es) (walk [] es)"
    by (rule list_all2_treated_mono[OF presents_each_treated[OF pe]])
      (auto simp: m finished_def)
  have r: "main limit h argv =
               \<lparr>exit_code = 0, raised = None, stdout = [],
                calls = OpenWrite (argv ! 2) # ListDir (argv ! 1) # walk_calls (argv ! 1) es
                          @ [CloseWrite (argv ! 2)],
                out_text = generated_text (argv ! 3) (walk [] es)\<rparr>"
    unfolding m finished_def assemble_spelled ..
  show "\<exists>es. presents h (argv ! 1) es
           \<and> listdir h (argv ! 1) = Some (map name_of es)
           \<and> main limit h argv =
               \<lparr>exit_code = 0, raised = None, stdout = [],
                calls = OpenWrite (argv ! 2) # ListDir (argv ! 1) # walk_calls (argv ! 1) es
                          @ [CloseWrite (argv ! 2)],
                out_text = generated_text (argv ! 3) (walk [] es)\<rparr>
           \<and> list_all2 (treated h (calls (main limit h argv))) (visited (argv ! 1) es)
                (walk [] es)
           \<and> length (walk [] es) = count_dirs es + count_files es
           \<and> length (dir_items (walk [] es)) = count_dirs es
           \<and> length (file_items (walk [] es)) = count_files es"
    using es ld r t length_walk[of "[]" es] length_dir_items_walk[of "[]" es]
      length_file_items_walk[of "[]" es]
    by (intro exI[of _ es]) blast
next
  fix names n
  assume "listdir h (argv ! 1) = Some names \<and> n \<in> set names
         \<and> \<not> isdir h (argv ! 1 @ py ''/'' @ n) \<and> read_rb h (argv ! 1 @ py ''/'' @ n) = None"
  then have a: "listdir h (argv ! 1) = Some names" "n \<in> set names"
    "\<not> isdir h (argv ! 1 @ py ''/'' @ n)" "read_rb h (argv ! 1 @ py ''/'' @ n) = None"
    by simp_all
  show "exit_code (main limit h argv) \<noteq> 0" by (rule unreadable_entry_aborts[OF a])
qed

theorem classification_by_isdir_witness:
  "exit_code (main 2 example_host example_argv) = 0
   \<and> (\<exists>es. presents example_host (py ''root'') es
         \<and> list_all2 (treated example_host (calls (main 2 example_host example_argv)))
              (visited (py ''root'') es) (walk [] es)
         \<and> count_dirs es = 1 \<and> count_files es = 2)"
proof -
  have c: "length example_argv = 4 \<and> open_w example_host (example_argv ! 2)
      \<and> presents example_host (example_argv ! 1) example_tree
      \<and> height example_tree < 2 \<and> writable example_host (example_argv ! 3) example_tree"
    unfolding example_argv_simps
    using example_writable example_presents by (simp add: example_height example_host_def)
  note t = classification_by_isdir[of example_argv example_host example_tree 2]
  from t c have e: "exit_code (main 2 example_host example_argv) = 0" by blast
  with t obtain es where es: "presents example_host (example_argv ! 1) es"
    "list_all2 (treated example_host (calls (main 2 example_host example_argv)))
        (visited (example_argv ! 1) es) (walk [] es)"
    by blast
  from es(1) have "presents example_host (py ''root'') es" unfolding example_argv_simps .
  from presents_unique[OF this example_presents] have "es = example_tree" .
  with e es show ?thesis
    unfolding example_argv_simps
    by (intro conjI exI[of _ es]) (simp_all add: example_tree_def)
qed

subsection \<open>Effects on the host\<close>

lemma walk_calls_read_only:
  "e \<in> set (walk_calls path es) \<Longrightarrow> read_only e \<and> prefix (path @ py ''/'') (event_path e)"
proof (induction path es rule: walk_calls.induct)
  case (1 path)
  then show ?case by simp
next
  case (2 path n d es)
  then show ?case by auto
next
  case (3 path n cs es)
  from "3.prems" consider "e = IsDir (path @ py ''/'' @ n) \<or> e = ListDir (path @ py ''/'' @ n)"
    | "e \<in> set (walk_calls (path @ py ''/'' @ n) cs)" | "e \<in> set (walk_calls path es)"
    by auto
  then show ?case
  proof cases
    case 1
    then show ?thesis by auto
  next
    case 2
    from "3.IH"(1)[OF 2] have "read_only e"
      and "prefix ((path @ py ''/'' @ n) @ py ''/'') (event_path e)" by simp_all
    then show ?thesis by (auto simp: prefix_def)
  next
    case 3
    from "3.IH"(2)[OF 3] show ?thesis .
  qed
qed

lemma filter_walk_calls: "filter (\<lambda>e. \<not> read_only e) (walk_calls path es) = []"
  using walk_calls_read_only by (auto simp: filter_empty_conv)

text \<open>
  C7, as amended.  A run with three arguments that raises no exception reaches the end of
  the script: it has status 0 and printed nothing; the host calls that are not read-only
  are exactly the opening and the closing of the output file \<open>argv[2]\<close>, so no other
  path is opened for writing; every read-only call is made on the input directory or on
  a path below it; and when the output path is not an entry the walk visits, no visited
  entry is opened for writing.
\<close>

theorem only_output_written:
  assumes "length argv = 4" and "raised (main limit h argv) = None"
  shows "exit_code (main limit h argv) = 0 \<and> stdout (main limit h argv) = []
     \<and> filter (\<lambda>e. \<not> read_only e) (calls (main limit h argv))
         = [OpenWrite (argv ! 2), CloseWrite (argv ! 2)]
     \<and> (\<forall>e \<in> set (calls (main limit h argv)). read_only e \<longrightarrow>
           event_path e = argv ! 1 \<or> prefix (argv ! 1 @ py ''/'') (event_path e))
     \<and> (\<forall>p. OpenWrite p \<in> set (calls (main limit h argv)) \<longrightarrow> p = argv ! 2)
     \<and> (IsDir (argv ! 2) \<notin> set (calls (main limit h argv)) \<longrightarrow>
           (\<forall>p. OpenWrite p \<in> set (calls (main limit h argv)) \<longrightarrow>
                IsDir p \<notin> set (calls (main limit h argv))))"
proof -
  from main_success[OF assms] obtain es where r: "main limit h argv = finished argv es"
    by blast
  have c: "calls (main limit h argv) =
      OpenWrite (argv ! 2) # ListDir (argv ! 1) # walk_calls (argv ! 1) es
                @ [CloseWrite (argv ! 2)]"
    by (simp add: r finished_def)
  have 1: "filter (\<lambda>e. \<not> read_only e) (calls (main limit h argv))
      = [OpenWrite (argv ! 2), CloseWrite (argv ! 2)]"
    by (simp add: c filter_walk_calls)
  have 2: "\<forall>e \<in> set (calls (main limit h argv)). read_only e \<longrightarrow>
           event_path e = argv ! 1 \<or> prefix (argv ! 1 @ py ''/'') (event_path e)"
    using walk_calls_read_only[of _ "argv ! 1" es] by (auto simp: c)
  have 3: "\<forall>p. OpenWrite p \<in> set (calls (main limit h argv)) \<longrightarrow> p = argv ! 2"
  proof (intro allI impI)
    fix p assume "OpenWrite p \<in> set (calls (main limit h argv))"
    then have "OpenWrite p \<in> set (filter (\<lambda>e. \<not> read_only e) (calls (main limit h argv)))"
      by simp
    then show "p = argv ! 2" unfolding 1 by simp
  qed
  from 3 have 4: "IsDir (argv ! 2) \<notin> set (calls (main limit h argv)) \<longrightarrow>
           (\<forall>p. OpenWrite p \<in> set (calls (main limit h argv)) \<longrightarrow>
                IsDir p \<notin> set (calls (main limit h argv)))" by blast
  have 0: "exit_code (main limit h argv) = 0" "stdout (main limit h argv) = []"
    by (simp_all add: r finished_def)
  show ?thesis using 0 1 2 3 4 by blast
qed

lemma example_finished:
  "main 2 example_host example_argv = finished example_argv example_tree"
proof -
  have o: "open_w example_host (example_argv ! 2)"
    by (simp add: example_argv_def example_host_def)
  have p: "presents example_host (example_argv ! 1) example_tree"
    unfolding example_argv_simps by (rule example_presents)
  have h: "height example_tree < 2" by (simp add: example_height)
  have w: "writable example_host (example_argv ! 3) example_tree"
    unfolding example_argv_simps by (rule example_writable)
  show ?thesis
    by (rule main_presents[OF example_argv_simps(1) o p h writable_assemble[OF w]])
qed

theorem only_output_written_witness:
  "filter (\<lambda>e. \<not> read_only e) (calls (main 2 example_host example_argv))
     = [OpenWrite (py ''out.c''), CloseWrite (py ''out.c'')]
   \<and> IsDir (py ''out.c'') \<notin> set (calls (main 2 example_host example_argv))
   \<and> stdout (main 2 example_host example_argv) = []"
proof -
  have e: "raised (main 2 example_host example_argv) = None"
    unfolding example_finished by (simp add: finished_def)
  from only_output_written[OF example_argv_simps(1) e]
  have "filter (\<lambda>e. \<not> read_only e) (calls (main 2 example_host example_argv))
     = [OpenWrite (example_argv ! 2), CloseWrite (example_argv ! 2)]"
    and "stdout (main 2 example_host example_argv) = []" by blast+
  moreover have "IsDir (py ''out.c'') \<notin> set (calls (main 2 example_host example_argv))"
    unfolding example_finished
    by (simp add: finished_def example_argv_def example_tree_def)
  ultimately show ?thesis unfolding example_argv_simps by blast
qed

text \<open>
  C7 as stated fails when the output file is named inside the input directory: the run
  below ends with status 0, and \<open>root/out.c\<close> is both opened for writing and visited,
  opened and read as a file of the input tree.
\<close>

theorem input_tree_written_counterexample:
  "main 1 inside_host inside_argv = inside_run
   \<and> exit_code inside_run = 0
   \<and> OpenWrite (py ''root/out.c'') \<in> set (calls inside_run)
   \<and> IsDir (py ''root/out.c'') \<in> set (calls inside_run)
   \<and> OpenRead (py ''root/out.c'') \<in> set (calls inside_run)"
proof -
  have a: "length inside_argv = 4" "inside_argv ! 1 = py ''root''"
    "inside_argv ! 2 = py ''root/out.c''" "inside_argv ! 3 = py ''populate''"
    by (simp_all add: inside_argv_def)
  have o: "open_w inside_host (inside_argv ! 2)"
    unfolding a by (simp add: inside_host_def)
  have p: "presents inside_host (inside_argv ! 1) [File (py ''out.c'') []]"
    unfolding a by (simp add: inside_host_def)
  have h: "height [File (py ''out.c'') []] < 1" by simp
  have w: "writable inside_host (inside_argv ! 3) [File (py ''out.c'') []]"
    unfolding a by (simp add: writable_def inside_host_def utf8_encodable_def list_all_iff)
  have "main 1 inside_host inside_argv = finished inside_argv [File (py ''out.c'') []]"
    by (rule main_presents[OF a(1) o p h writable_assemble[OF w]])
  moreover have "finished inside_argv [File (py ''out.c'') []] = inside_run"
    unfolding finished_def a inside_run_def by simp
  ultimately show ?thesis by (simp add: inside_run_def)
qed

subsection \<open>Running the generated function\<close>

lemma render_compile_op: "render_call (compile_op x) = render_op x"
  by (cases x) (simp_all add: file_text_def)

lemma render_call_spelled:
  "render_call (compile_op (MkDir p)) = make_dir_text p"
  "render_call (compile_op (WriteFile p k)) = write_file_text p k"
  by (simp_all add: mkdir_line_def open_line_def assert_open_line_def write_line_def
      assert_len_line_def drop_line_def blob_name_def)

lemma accent_finished:
  "main 1 accent_host example_argv = finished example_argv accent_tree"
proof -
  have o: "open_w accent_host (example_argv ! 2)"
    unfolding example_argv_simps by (simp add: accent_host_def)
  have p: "presents accent_host (example_argv ! 1) accent_tree"
    unfolding example_argv_simps by (simp add: accent_host_def accent_tree_def)
  have h: "height accent_tree < 1" by (simp add: accent_tree_def)
  have w: "writable accent_host (example_argv ! 3) accent_tree"
    unfolding example_argv_simps
    by (simp add: writable_def accent_host_def accent_tree_def utf8_encodable_def list_all_iff)
  show ?thesis
    by (rule main_presents[OF example_argv_simps(1) o p h writable_assemble[OF w]])
qed

lemma accent_target:
  "map_option (\<lambda>fs. (fs [47, 195], fs [47, 195, 169])) (run_target utf8 accent_tree)
     = Some (Some (TFile []), None)"
  by (simp add: run_target_def accent_tree_def body_ops_def c_path_def encode_def utf8_def
      escape_charwise escape_char_spec_def fs_open_create_def fs_write_all_def dir_exists_def
      dir_name_def base_name_def)

lemma accent_reproduces:
  "map_option (reproduces utf8 accent_tree) (run_target utf8 accent_tree) = Some False"
proof -
  from accent_target obtain fs where fs: "run_target utf8 accent_tree = Some fs"
    "fs [47, 195, 169] = None" by auto
  have "FileItem [47, 233] [] \<in> set (walk [] accent_tree)" by (simp add: accent_tree_def)
  moreover have "encode utf8 [47, 233] = [47, 195, 169]" by (simp add: encode_def utf8_def)
  ultimately have "\<not> reproduces utf8 accent_tree fs"
    using fs(2) unfolding reproduces_def by (metis option.distinct(1))
  with fs(1) show ?thesis by simp
qed

text \<open>
  C1 fails on a tree with a name outside ASCII.  The input directory holds one empty
  file named by the character U+00E9.  The run succeeds and emits the call
  \<open>fs_open(FILE_NONE, "/\<dots>", 2, ...)\<close> whose literal is the two characters of the
  virtual path and whose number is \<open>len(virtpath) = 2\<close>, a count of characters.  Written
  in UTF-8 the literal is three bytes (47, 195, 169); the call receives the first two,
  so the generated function creates the file at the path (47, 195) and nothing at the
  path of the input file: the filesystem does not hold the tree.
\<close>

theorem accent_not_reproduced:
  "main 1 accent_host example_argv = finished example_argv accent_tree
   \<and> map compile_op (body_ops accent_tree) = [OpenWriteDrop [47, 233] 2 0]
   \<and> encode utf8 [47, 233] = [47, 195, 169]
   \<and> c_path utf8 [47, 233] 2 = Some [47, 195]
   \<and> map_option (\<lambda>fs. (fs [47, 195], fs [47, 195, 169])) (run_target utf8 accent_tree)
       = Some (Some (TFile []), None)
   \<and> map_option (reproduces utf8 accent_tree) (run_target utf8 accent_tree) = Some False"
proof (intro conjI)
  show "map compile_op (body_ops accent_tree) = [OpenWriteDrop [47, 233] 2 0]"
    by (simp add: body_ops_def accent_tree_def escape_charwise escape_char_spec_def)
  show "encode utf8 [47, 233] = [47, 195, 169]" by (simp add: encode_def utf8_def)
  show "c_path utf8 [47, 233] 2 = Some [47, 195]"
    by (simp add: c_path_def encode_def utf8_def)
qed (rule accent_finished accent_target accent_reproduces)+

lemma dir_name_slash: "47 \<notin> set n \<Longrightarrow> dir_name (parent @ 47 # n) = parent"
proof -
  assume n: "47 \<notin> set n"
  have "dropWhile (\<lambda>c. c \<noteq> 47) (rev n @ 47 # rev parent) = 47 # rev parent"
    using n by (subst dropWhile_append2) auto
  then show ?thesis by (simp add: dir_name_def)
qed

lemma base_name_slash: "47 \<notin> set n \<Longrightarrow> base_name (parent @ 47 # n) = n"
proof -
  assume n: "47 \<notin> set n"
  have "takeWhile (\<lambda>c. c \<noteq> 47) (rev n @ 47 # rev parent) = rev n"
    using n by (subst takeWhile_append2) auto
  then show ?thesis by (simp add: base_name_def)
qed

lemma well_named_slash_free: "well_named es \<Longrightarrow> slash_free es"
  by (induction es rule: well_named.induct) simp_all

lemma walk_path_shape:
  "well_named es \<Longrightarrow> x \<in> set (walk vp es) \<Longrightarrow>
   \<exists>parent n. item_path x = parent @ 47 # n \<and> n \<noteq> [] \<and> 47 \<notin> set n"
proof (induction vp es rule: walk.induct)
  case (1 vp)
  then show ?case by simp
next
  case (2 vp n d es)
  from "2.prems"(2) consider "x = FileItem (vp @ py ''/'' @ n) d" | "x \<in> set (walk vp es)"
    by auto
  then show ?case
  proof cases
    case 1
    with "2.prems"(1) show ?thesis by (intro exI[of _ vp] exI[of _ n]) simp
  next
    case 2
    with "2.IH" "2.prems"(1) show ?thesis by simp
  qed
next
  case (3 vp n cs es)
  from "3.prems"(2) consider "x = DirItem (vp @ py ''/'' @ n)"
    | "x \<in> set (walk (vp @ py ''/'' @ n) cs)" | "x \<in> set (walk vp es)" by auto
  then show ?case
  proof cases
    case 1
    with "3.prems"(1) show ?thesis by (intro exI[of _ vp] exI[of _ n]) simp
  next
    case 2
    with "3.IH"(1) "3.prems"(1) show ?thesis by simp
  next
    case 3
    with "3.IH"(2) "3.prems"(1) show ?thesis by simp
  qed
qed

lemma takeWhile_name: "47 \<notin> set n \<Longrightarrow> takeWhile (\<lambda>c. c \<noteq> 47) (n @ 47 # t) = n"
  by (subst takeWhile_append2) auto

lemma takeWhile_name0: "47 \<notin> set n \<Longrightarrow> takeWhile (\<lambda>c. c \<noteq> (47::nat)) n = n"
  by (rule takeWhile_eq_all_conv[THEN iffD2]) auto

lemma walk_first_segment:
  "well_named es \<Longrightarrow> x \<in> set (walk vp es) \<Longrightarrow>
   \<exists>s. item_path x = vp @ 47 # s \<and> takeWhile (\<lambda>c. c \<noteq> 47) s \<in> name_of ` set es"
proof (induction vp es rule: walk.induct)
  case (1 vp)
  then show ?case by simp
next
  case (2 vp n d es)
  from "2.prems"(2) consider "x = FileItem (vp @ py ''/'' @ n) d" | "x \<in> set (walk vp es)"
    by auto
  then show ?case
  proof cases
    case 1
    with "2.prems"(1) show ?thesis by (intro exI[of _ n]) (simp add: takeWhile_name0)
  next
    case 2
    with "2.IH" "2.prems"(1) show ?thesis by auto
  qed
next
  case (3 vp n cs es)
  from "3.prems"(1) have n: "47 \<notin> set n" by simp
  from "3.prems"(2) consider "x = DirItem (vp @ py ''/'' @ n)"
    | "x \<in> set (walk (vp @ py ''/'' @ n) cs)" | "x \<in> set (walk vp es)" by auto
  then show ?case
  proof cases
    case 1
    with n show ?thesis by (intro exI[of _ n]) (simp add: takeWhile_name0)
  next
    case 2
    from walk_path_prefix[OF 2] obtain t where "item_path x = ((vp @ py ''/'' @ n) @ [47]) @ t"
      unfolding prefix_def by blast
    then have "item_path x = vp @ 47 # (n @ 47 # t)" by simp
    with n show ?thesis by (intro exI[of _ "n @ 47 # t"]) (simp add: takeWhile_name)
  next
    case 3
    with "3.IH"(2) "3.prems"(1) show ?thesis by auto
  qed
qed

lemma walk_paths_distinct: "well_named es \<Longrightarrow> distinct (map item_path (walk vp es))"
proof (induction vp es rule: walk.induct)
  case (1 vp)
  then show ?case by simp
next
  case (2 vp n d es)
  have "vp @ 47 # n \<notin> item_path ` set (walk vp es)"
  proof
    assume "vp @ 47 # n \<in> item_path ` set (walk vp es)"
    then obtain x where x: "x \<in> set (walk vp es)" "item_path x = vp @ 47 # n" by auto
    from "2.prems" have w: "well_named es" by simp
    from walk_first_segment[OF w x(1)] x(2) have
      "takeWhile (\<lambda>c. c \<noteq> 47) n \<in> name_of ` set es" by auto
    with "2.prems" show False by (simp add: takeWhile_name0)
  qed
  with 2 show ?case by simp
next
  case (3 vp n cs es)
  let ?c = "vp @ py ''/'' @ n"
  from "3.prems" have n: "47 \<notin> set n" "n \<notin> name_of ` set es"
    and wc: "well_named cs" and we: "well_named es" by simp_all
  have a: "?c \<notin> item_path ` set (walk ?c cs)"
  proof
    assume "?c \<in> item_path ` set (walk ?c cs)"
    then obtain x where x: "x \<in> set (walk ?c cs)" "item_path x = ?c" by auto
    from walk_path_prefix[OF x(1)] x(2) have "prefix (?c @ [47]) ?c" by simp
    then have "length (?c @ [47]) \<le> length ?c" by (rule prefix_length_le)
    then show False by simp
  qed
  have b: "?c \<notin> item_path ` set (walk vp es)"
  proof
    assume "?c \<in> item_path ` set (walk vp es)"
    then obtain x where x: "x \<in> set (walk vp es)" "item_path x = ?c" by auto
    from walk_first_segment[OF we x(1)] x(2) have
      "takeWhile (\<lambda>c. c \<noteq> 47) n \<in> name_of ` set es" by auto
    with n show False by (simp add: takeWhile_name0)
  qed
  have c: "item_path ` set (walk ?c cs) \<inter> item_path ` set (walk vp es) = {}"
  proof (rule ccontr)
    assume "item_path ` set (walk ?c cs) \<inter> item_path ` set (walk vp es) \<noteq> {}"
    then obtain x y where x: "x \<in> set (walk ?c cs)" and y: "y \<in> set (walk vp es)"
      and e: "item_path x = item_path y" by auto
    from walk_path_prefix[OF x] obtain t where "item_path x = (?c @ [47]) @ t"
      unfolding prefix_def by blast
    then have px: "item_path x = vp @ 47 # (n @ 47 # t)" by simp
    from walk_first_segment[OF we y] obtain s where s: "item_path y = vp @ 47 # s"
      "takeWhile (\<lambda>c. c \<noteq> 47) s \<in> name_of ` set es" by blast
    from px s(1) e have "s = n @ 47 # t" by simp
    with s(2) n show False by (simp add: takeWhile_name)
  qed
  from "3.IH"(1)[OF wc] "3.IH"(2)[OF we] a b c show ?case by simp
qed

lemma walk_ascii:
  "ascii_names es \<Longrightarrow> \<forall>c \<in> set vp. c < 128 \<Longrightarrow> x \<in> set (walk vp es) \<Longrightarrow>
   \<forall>c \<in> set (item_path x). c < 128"
proof (induction vp es rule: walk.induct)
  case (1 vp)
  then show ?case by simp
next
  case (2 vp n d es)
  then show ?case by auto
next
  case (3 vp n cs es)
  from "3.prems"(3) consider "x = DirItem (vp @ py ''/'' @ n)"
    | "x \<in> set (walk (vp @ py ''/'' @ n) cs)" | "x \<in> set (walk vp es)" by auto
  then show ?case
  proof cases
    case 1
    with "3.prems" show ?thesis by auto
  next
    case 2
    have "\<forall>c \<in> set (vp @ py ''/'' @ n). c < 128" using "3.prems"(1,2) by auto
    from "3.IH"(1)[OF _ this 2] "3.prems"(1) show ?thesis by simp
  next
    case 3
    from "3.IH"(2)[OF _ "3.prems"(2) 3] "3.prems"(1) show ?thesis by simp
  qed
qed

lemma encode_ascii:
  "\<forall>c < 128. enc c = [c] \<Longrightarrow> \<forall>c \<in> set p. c < 128 \<Longrightarrow> encode enc p = p"
  unfolding encode_def by (induction p) simp_all

lemma escape_ascii: "\<forall>c \<in> set p. c < 128 \<Longrightarrow> \<forall>c \<in> set (escape p). c < 128"
  unfolding escape_charwise by (induction p) (auto simp: escape_char_spec_def)

lemma c_path_ascii:
  assumes "\<forall>c < 128. enc c = [c]" and "\<forall>c \<in> set p. c < 128"
  shows "c_path enc (escape p) (length p) = Some p"
proof -
  have "encode enc (escape p) = escape p"
    by (rule encode_ascii[OF assms(1) escape_ascii[OF assms(2)]])
  then show ?thesis by (simp add: c_path_def c_unescape_escape)
qed

lemma dir_items_subset: "set (dir_items xs) \<subseteq> item_path ` set xs"
  by (induction xs rule: dir_items.induct) auto

lemma file_items_subset: "fst ` set (file_items xs) \<subseteq> item_path ` set xs"
  by (induction xs rule: file_items.induct) auto

lemma items_distinct_split:
  "distinct (map item_path xs) \<Longrightarrow>
   distinct (dir_items xs) \<and> distinct (map fst (file_items xs))
   \<and> set (dir_items xs) \<inter> fst ` set (file_items xs) = {}"
proof (induction xs rule: dir_items.induct)
  case 1
  then show ?case by simp
next
  case (2 p xs)
  then have "p \<notin> item_path ` set xs" by simp
  with dir_items_subset[of xs] file_items_subset[of xs]
  have "p \<notin> set (dir_items xs)" "p \<notin> fst ` set (file_items xs)" by blast+
  with 2 show ?case by simp
next
  case (3 p d xs)
  then have "p \<notin> item_path ` set xs" by simp
  with dir_items_subset[of xs] file_items_subset[of xs]
  have "p \<notin> set (dir_items xs)" "p \<notin> fst ` set (file_items xs)" by blast+
  with 3 show ?case by simp
qed

lemma exec_calls_append:
  "exec_calls enc blobs (xs @ ys) fs =
     (case exec_calls enc blobs xs fs of None \<Rightarrow> None | Some fs' \<Rightarrow> exec_calls enc blobs ys fs')"
  by (induction xs arbitrary: fs) (simp_all split: option.splits)

lemma exec_mkdirs:
  assumes "distinct ps"
    and "\<forall>p \<in> set ps. fs p = None \<and> base_name p \<noteq> []
            \<and> c_path enc (escape p) (length p) = Some p"
    and "\<forall>pre p post. ps = pre @ p # post \<longrightarrow>
            dir_name p = [] \<or> dir_name p \<in> set pre \<or> fs (dir_name p) = Some TDir"
  shows "exec_calls enc blobs (map compile_op (map MkDir ps)) fs =
           Some (\<lambda>q. if q \<in> set ps then Some TDir else fs q)"
  using assms
proof (induction ps arbitrary: fs)
  case Nil
  then show ?case by simp
next
  case (Cons p ps)
  let ?fs = "fs(p \<mapsto> TDir)"
  from Cons.prems(3) have "dir_name p = [] \<or> dir_name p \<in> set [] \<or> fs (dir_name p) = Some TDir"
    by (metis append_Nil)
  then have de: "dir_exists fs (dir_name p)" by (simp add: dir_exists_def)
  from Cons.prems(2) have p: "fs p = None" "base_name p \<noteq> []"
    "c_path enc (escape p) (length p) = Some p" by simp_all
  have step: "exec_call enc blobs (compile_op (MkDir p)) fs = Some ?fs"
    using p de by (simp add: fs_make_dir_def)
  have 1: "distinct ps" using Cons.prems(1) by simp
  have 2: "\<forall>q \<in> set ps. ?fs q = None \<and> base_name q \<noteq> []
            \<and> c_path enc (escape q) (length q) = Some q"
    using Cons.prems(1,2) by auto
  have 3: "\<forall>pre q post. ps = pre @ q # post \<longrightarrow>
            dir_name q = [] \<or> dir_name q \<in> set pre \<or> ?fs (dir_name q) = Some TDir"
  proof (intro allI impI)
    fix pre q post assume "ps = pre @ q # post"
    then have "p # ps = (p # pre) @ q # post" by simp
    with Cons.prems(3) have "dir_name q = [] \<or> dir_name q \<in> set (p # pre)
        \<or> fs (dir_name q) = Some TDir" by blast
    then show "dir_name q = [] \<or> dir_name q \<in> set pre \<or> ?fs (dir_name q) = Some TDir"
      by auto
  qed
  have "exec_calls enc blobs (map compile_op (map MkDir ps)) ?fs =
           Some (\<lambda>q. if q \<in> set ps then Some TDir else ?fs q)"
    by (rule Cons.IH[OF 1 2 3])
  moreover have "(\<lambda>q. if q \<in> set ps then Some TDir else ?fs q)
      = (\<lambda>q. if q \<in> set (p # ps) then Some TDir else fs q)"
    by (rule ext) simp
  ultimately show ?case using step by simp
qed

lemma exec_writes:
  assumes "distinct (map fst F)"
    and "\<forall>(p, d) \<in> set F. fs p = None \<and> base_name p \<noteq> [] \<and> dir_exists fs (dir_name p)
            \<and> c_path enc (escape p) (length p) = Some p"
    and "\<forall>i < length F. k0 + i < length blobs \<and> blobs ! (k0 + i) = snd (F ! i)"
  shows "exec_calls enc blobs
           (map compile_op (map (\<lambda>(k, p, d). WriteFile p k) (enumerate k0 F))) fs =
           Some (\<lambda>q. case map_of F q of Some d \<Rightarrow> Some (TFile d) | None \<Rightarrow> fs q)"
  using assms
proof (induction F arbitrary: k0 fs)
  case Nil
  then show ?case by simp
next
  case (Cons pd F)
  obtain p d where pd: "pd = (p, d)" by (cases pd)
  let ?fs = "fs(p \<mapsto> TFile d)"
  from Cons.prems(2) pd have p: "fs p = None" "base_name p \<noteq> []" "dir_exists fs (dir_name p)"
    "c_path enc (escape p) (length p) = Some p" by simp_all
  from Cons.prems(3) have b: "k0 < length blobs" "blobs ! k0 = d"
    using pd by force+
  have step: "exec_call enc blobs (compile_op (WriteFile p k0)) fs = Some ?fs"
    using p b by (simp add: fs_open_create_def fs_write_all_def)
  have 1: "distinct (map fst F)" using Cons.prems(1) by simp
  have np: "p \<notin> fst ` set F" using Cons.prems(1) pd by simp
  have 2: "\<forall>(q, e) \<in> set F. ?fs q = None \<and> base_name q \<noteq> [] \<and> dir_exists ?fs (dir_name q)
            \<and> c_path enc (escape q) (length q) = Some q"
  proof (intro ballI, clarify)
    fix q e assume qe: "(q, e) \<in> set F"
    with Cons.prems(2) have q: "fs q = None" "base_name q \<noteq> []" "dir_exists fs (dir_name q)"
      "c_path enc (escape q) (length q) = Some q" by auto
    from qe np have "q \<noteq> p" by force
    moreover from q(3) p(1) have "dir_exists ?fs (dir_name q)"
      by (auto simp: dir_exists_def)
    ultimately show "?fs q = None \<and> base_name q \<noteq> [] \<and> dir_exists ?fs (dir_name q)
            \<and> c_path enc (escape q) (length q) = Some q"
      using q by simp
  qed
  have 3: "\<forall>i < length F. Suc k0 + i < length blobs \<and> blobs ! (Suc k0 + i) = snd (F ! i)"
  proof (intro allI impI)
    fix i assume "i < length F"
    then have "Suc i < length (pd # F)" by simp
    with Cons.prems(3) have "k0 + Suc i < length blobs \<and> blobs ! (k0 + Suc i) = snd ((pd # F) ! Suc i)"
      by blast
    then show "Suc k0 + i < length blobs \<and> blobs ! (Suc k0 + i) = snd (F ! i)" by simp
  qed
  have "exec_calls enc blobs
           (map compile_op (map (\<lambda>(k, p, d). WriteFile p k) (enumerate (Suc k0) F))) ?fs =
           Some (\<lambda>q. case map_of F q of Some d \<Rightarrow> Some (TFile d) | None \<Rightarrow> ?fs q)"
    by (rule Cons.IH[OF 1 2 3])
  moreover have "(\<lambda>q. case map_of F q of Some d \<Rightarrow> Some (TFile d) | None \<Rightarrow> ?fs q)
      = (\<lambda>q. case map_of (pd # F) q of Some d \<Rightarrow> Some (TFile d) | None \<Rightarrow> fs q)"
  proof (rule ext)
    fix q
    from np have "map_of F p = None" by (simp add: map_of_eq_None_iff)
    then show "(case map_of F q of Some d \<Rightarrow> Some (TFile d) | None \<Rightarrow> ?fs q)
      = (case map_of (pd # F) q of Some d \<Rightarrow> Some (TFile d) | None \<Rightarrow> fs q)"
      by (cases "q = p") (simp_all add: pd split: option.splits)
  qed
  ultimately show ?case using step by (simp add: pd)
qed

text \<open>
  The slip is confined to names that take more than one byte.  When the entry names are
  well formed and consist of ASCII characters, and the encoding writes an ASCII
  character as the byte of its code (as UTF-8 and the single-byte encodings do), the
  generated function runs through every assertion on the empty filesystem and leaves
  exactly the tree: the same paths, a directory at every directory's path and the same
  bytes at every file's path.
\<close>

theorem ascii_tree_reproduced:
  assumes wn: "well_named es" and an: "ascii_names es" and enc: "\<forall>c < 128. enc c = [c]"
  shows "\<exists>fs. run_target enc es = Some fs \<and> reproduces enc es fs"
proof -
  let ?W = "walk [] es"
  let ?D = "dir_items ?W"
  let ?F = "file_items ?W"
  let ?fs1 = "\<lambda>q. if q \<in> set ?D then Some TDir else (Map.empty :: tfs) q"
  let ?fs2 = "\<lambda>q. case map_of ?F q of Some d \<Rightarrow> Some (TFile d) | None \<Rightarrow> ?fs1 q"
  have sf: "slash_free es" by (rule well_named_slash_free[OF wn])
  from items_distinct_split[OF walk_paths_distinct[OF wn, of "[]"]]
  have dD: "distinct ?D" and dF: "distinct (map fst ?F)"
    and disj: "set ?D \<inter> fst ` set ?F = {}" by simp_all
  \<comment> \<open>facts about any discovered item\<close>
  have item: "base_name (item_path x) \<noteq> []
      \<and> c_path enc (escape (item_path x)) (length (item_path x)) = Some (item_path x)
      \<and> encode enc (item_path x) = item_path x
      \<and> (\<forall>us vs. ?W = us @ x # vs \<longrightarrow>
            dir_name (item_path x) = [] \<or> DirItem (dir_name (item_path x)) \<in> set us)"
    if x: "x \<in> set ?W" for x
  proof -
    from walk_path_shape[OF wn x] obtain parent n where
      p: "item_path x = parent @ 47 # n" "n \<noteq> []" "47 \<notin> set n" by blast
    have a: "\<forall>c \<in> set (item_path x). c < 128"
      by (rule walk_ascii[OF an _ x]) simp
    have dn: "dir_name (item_path x) = parent" by (simp add: p dir_name_slash)
    have "dir_name (item_path x) = [] \<or> DirItem (dir_name (item_path x)) \<in> set us"
      if w: "?W = us @ x # vs" for us vs
    proof (cases "parent = []")
      case True
      with dn show ?thesis by simp
    next
      case False
      have "prefix (parent @ [47]) (item_path x)" by (simp add: p)
      from walk_ancestors_before[OF sf w this] False dn show ?thesis by simp
    qed
    then show ?thesis
      using p c_path_ascii[OF enc a] encode_ascii[OF enc a] by (simp add: base_name_slash)
  qed
  \<comment> \<open>the directory creations\<close>
  have m2: "\<forall>p \<in> set ?D. (Map.empty :: tfs) p = None \<and> base_name p \<noteq> []
            \<and> c_path enc (escape p) (length p) = Some p"
  proof
    fix p assume "p \<in> set ?D"
    then have "DirItem p \<in> set ?W" by (simp add: dir_items_set)
    from item[OF this] show "(Map.empty :: tfs) p = None \<and> base_name p \<noteq> []
            \<and> c_path enc (escape p) (length p) = Some p" by simp
  qed
  have m3: "\<forall>pre p post. ?D = pre @ p # post \<longrightarrow>
            dir_name p = [] \<or> dir_name p \<in> set pre \<or> (Map.empty :: tfs) (dir_name p) = Some TDir"
  proof (intro allI impI)
    fix pre p post assume "?D = pre @ p # post"
    from dir_items_split[OF this] obtain us vs where w: "?W = us @ DirItem p # vs"
      "dir_items us = pre" by blast
    then have "DirItem p \<in> set ?W" by simp
    from item[OF this] w(1) have "dir_name p = [] \<or> DirItem (dir_name p) \<in> set us" by auto
    with w(2) dir_items_set[of "dir_name p" us]
    show "dir_name p = [] \<or> dir_name p \<in> set pre \<or> (Map.empty :: tfs) (dir_name p) = Some TDir"
      by auto
  qed
  have e1: "exec_calls enc (map snd ?F) (map compile_op (map MkDir ?D)) Map.empty = Some ?fs1"
    by (rule exec_mkdirs[OF dD m2 m3])
  \<comment> \<open>the file writes\<close>
  have w2: "\<forall>(p, d) \<in> set ?F. ?fs1 p = None \<and> base_name p \<noteq> [] \<and> dir_exists ?fs1 (dir_name p)
            \<and> c_path enc (escape p) (length p) = Some p"
  proof (intro ballI, clarify)
    fix p d assume pd: "(p, d) \<in> set ?F"
    then have x: "FileItem p d \<in> set ?W" by (simp add: file_items_set)
    then obtain us vs where w: "?W = us @ FileItem p d # vs" by (auto simp: in_set_conv_decomp)
    from item[OF x] w have i: "base_name p \<noteq> []" "c_path enc (escape p) (length p) = Some p"
      "dir_name p = [] \<or> DirItem (dir_name p) \<in> set us" by auto
    from i(3) w have "dir_name p = [] \<or> DirItem (dir_name p) \<in> set ?W" by auto
    then have de: "dir_exists ?fs1 (dir_name p)"
      by (auto simp: dir_exists_def dir_items_set)
    from pd disj have "p \<notin> set ?D" by force
    with i de show "?fs1 p = None \<and> base_name p \<noteq> [] \<and> dir_exists ?fs1 (dir_name p)
            \<and> c_path enc (escape p) (length p) = Some p" by simp
  qed
  have w3: "\<forall>i < length ?F. 0 + i < length (map snd ?F) \<and> map snd ?F ! (0 + i) = snd (?F ! i)"
    by simp
  have e2: "exec_calls enc (map snd ?F)
           (map compile_op (map (\<lambda>(k, p, d). WriteFile p k) (enumerate 0 ?F))) ?fs1 = Some ?fs2"
    by (rule exec_writes[OF dF w2 w3])
  have run: "run_target enc es = Some ?fs2"
    unfolding run_target_def body_ops_def map_append exec_calls_append e1 using e2 by simp
  \<comment> \<open>the result holds the tree\<close>
  have r2: "?fs2 (encode enc p) = Some TDir" if "DirItem p \<in> set ?W" for p
  proof -
    from that have d: "p \<in> set ?D" by (simp add: dir_items_set)
    with disj have "p \<notin> fst ` set ?F" by blast
    then have "map_of ?F p = None" by (simp add: map_of_eq_None_iff)
    with d item[OF that] show ?thesis by simp
  qed
  have r3: "?fs2 (encode enc p) = Some (TFile d)" if "FileItem p d \<in> set ?W" for p d
  proof -
    from that have "(p, d) \<in> set ?F" by (simp add: file_items_set)
    with dF have "map_of ?F p = Some d" by simp
    with item[OF that] show ?thesis by simp
  qed
  have r1: "dom ?fs2 = (\<lambda>x. encode enc (item_path x)) ` set ?W"
  proof (intro set_eqI iffI)
    fix q assume "q \<in> dom ?fs2"
    then consider d where "map_of ?F q = Some d" | "q \<in> set ?D"
      by (auto split: option.splits if_splits)
    then show "q \<in> (\<lambda>x. encode enc (item_path x)) ` set ?W"
    proof cases
      case 1
      then have "(q, d) \<in> set ?F" by (rule map_of_SomeD)
      then have x: "FileItem q d \<in> set ?W" by (simp add: file_items_set)
      from item[OF x] have "encode enc (item_path (FileItem q d)) = q" by simp
      with x show ?thesis by force
    next
      case 2
      then have x: "DirItem q \<in> set ?W" by (simp add: dir_items_set)
      from item[OF x] have "encode enc (item_path (DirItem q)) = q" by simp
      with x show ?thesis by force
    qed
  next
    fix q assume "q \<in> (\<lambda>x. encode enc (item_path x)) ` set ?W"
    then obtain x where x: "x \<in> set ?W" "q = encode enc (item_path x)" by blast
    show "q \<in> dom ?fs2"
    proof (cases x)
      case (DirItem p)
      with x r2[of p] show ?thesis by auto
    next
      case (FileItem p d)
      with x r3[of p d] show ?thesis by auto
    qed
  qed
  have "reproduces enc es ?fs2"
    unfolding reproduces_def using r1 r2 r3 by blast
  with run show ?thesis by blast
qed

lemma example_reproduced:
  "\<exists>fs. run_target utf8 example_tree = Some fs \<and> reproduces utf8 example_tree fs"
proof -
  have "well_named example_tree" "ascii_names example_tree"
    by (simp_all add: example_tree_def)
  moreover have "\<forall>c < 128. utf8 c = [c]" by (simp add: utf8_def)
  ultimately show ?thesis by (rule ascii_tree_reproduced)
qed

end
